theory Spec2Isabelle
  imports Complex_Main "HOL-Library.Multiset" "HOL-Library.Product_Lexorder"
begin

section \<open>Data model of the hierarchical scheduler\<close>

text \<open>
  The scheduler of \<^verbatim>\<open>app/core/scheduler.py\<close> is embedded function by function.
  Python integers are \<open>int\<close>, counters that only count upwards are \<open>nat\<close>, Python
  floats are idealised as \<open>real\<close> (exact arithmetic), dictionaries with a default are total
  functions, and every \<^verbatim>\<open>raise\<close> is a value of \<open>py_error\<close>.
\<close>

datatype py_error = LoaderError | KeyError | IndexError | ValueError | ZeroDivisionError

text \<open>The three outcomes of a builder or solver step: an exception, Python's \<^verbatim>\<open>None\<close>, a value.\<close>

datatype 'a outcome = Raise py_error | Fail | Done 'a

datatype SchedulingPhase = PHASE_1_FLEXIBLE | PHASE_2_REGULAR | PHASE_3_CRITICAL

fun phase_value :: "SchedulingPhase \<Rightarrow> nat" where
  "phase_value PHASE_1_FLEXIBLE = 1"
| "phase_value PHASE_2_REGULAR = 2"
| "phase_value PHASE_3_CRITICAL = 3"

text \<open>A course record as the loaders deliver it, every key present (\<^verbatim>\<open>blocks\<close> defaults to 1
  at the loader).\<close>

record course =
  courseCode :: string
  title :: string
  program :: string
  yearLevel :: int
  unitsLecture :: int
  unitsLab :: int
  blocks :: int

text \<open>A section key is \<^verbatim>\<open>(prog, yr, blk)\<close>; the one-character block string
  \<^verbatim>\<open>chr(ord('A') + b)\<close> is represented by its code point \<open>65 + b\<close>.\<close>

type_synonym section_key = "string \<times> int \<times> int"
type_synonym room_key = "string \<times> int"

text \<open>The emitted event; the four underscore-prefixed scratch keys of the source extend it.\<close>

record out_event =
  schedule_id :: nat
  displayCode :: string
  baseCourseCode :: string
  ev_title :: string
  ev_program :: string
  year :: int
  session :: string
  block :: int
  day :: string
  room :: string

record event = out_event +
  start_slot :: int
  duration :: int
  room_type :: string
  room_idx :: int

record scheduler =
  process_id :: "string option"
  all_courses :: "(SchedulingPhase \<times> course) list"
  rooms :: "string \<Rightarrow> string list option"
  days :: "string list"
  start_t :: int
  end_t :: int
  inc_hr :: int
  inc_day :: int
  total_inc :: int
  lab_starts :: "int list"
  global_schedule :: "event list"
  occupied_slots :: "room_key \<Rightarrow> int set"
  section_occupied :: "section_key \<Rightarrow> int set"
  next_schedule_id :: nat
  courses_with_both :: "string set"
  progress_state :: "int list"
  solver_calls :: nat

text \<open>\<^verbatim>\<open>__init__\<close>. The field \<open>progress_state\<close> is the log of the values written to
  \<^verbatim>\<open>progress_state[process_id]\<close>, oldest first; \<open>solver_calls\<close> counts the calls of
  \<^verbatim>\<open>solver.Solve\<close>.\<close>

definition init :: "string option \<Rightarrow> scheduler" where
  "init pid = \<lparr> process_id = pid, all_courses = [], rooms = (\<lambda>_. None), days = [],
     start_t = 0, end_t = 0, inc_hr = 2, inc_day = 0, total_inc = 0, lab_starts = [],
     global_schedule = [], occupied_slots = (\<lambda>_. {}), section_occupied = (\<lambda>_. {}),
     next_schedule_id = 1, courses_with_both = {}, progress_state = [], solver_calls = 0 \<rparr>"

text \<open>Truthiness of \<^verbatim>\<open>process_id\<close>: \<^verbatim>\<open>None\<close> and the empty string write nothing.\<close>

definition truthy :: "string option \<Rightarrow> bool" where
  "truthy pid = (case pid of None \<Rightarrow> False | Some s \<Rightarrow> s \<noteq> [])"

definition update_progress :: "int \<Rightarrow> scheduler \<Rightarrow> scheduler" where
  "update_progress v st =
     (if truthy (process_id st) then st\<lparr>progress_state := progress_state st @ [v]\<rparr> else st)"

section \<open>Course partitioner\<close>

definition priority_score :: "course \<Rightarrow> int" where
  "priority_score c =
     yearLevel c * 1000 + (unitsLecture c + unitsLab c * 2) * 100 + unitsLab c * 50 + blocks c * 10"

definition assign_phase :: "course \<Rightarrow> SchedulingPhase" where
  "assign_phase c =
     (let has_lab = (unitsLab c > 0); year_level = yearLevel c in
      if year_level \<le> 1 \<and> \<not> has_lab then PHASE_1_FLEXIBLE
      else if (year_level \<ge> 2 \<and> year_level < 4 \<and> has_lab) \<or> (\<not> has_lab \<and> year_level \<ge> 2)
        then PHASE_2_REGULAR
      else PHASE_3_CRITICAL)"

definition both_codes :: "course list \<Rightarrow> string set" where
  "both_codes cs = set (map courseCode (filter (\<lambda>c. unitsLecture c > 0 \<and> unitsLab c > 0) cs))"

definition sort_rank :: "SchedulingPhase \<times> int \<times> course \<Rightarrow> nat \<times> int" where
  "sort_rank x = (phase_value (fst x), - fst (snd x))"

text \<open>\<^verbatim>\<open>list.sort\<close> is stable; so is \<open>sort_key\<close>, and a stable sort has one result.\<close>

definition prioritize_and_partition_courses ::
    "course list \<Rightarrow> scheduler \<Rightarrow> (SchedulingPhase \<times> course) list \<times> scheduler" where
  "prioritize_and_partition_courses courses st =
     (let scored_courses = map (\<lambda>c. (assign_phase c, priority_score c, c)) courses in
      (map (\<lambda>(phase, _, c). (phase, c)) (sort_key sort_rank scored_courses),
       st\<lparr>courses_with_both := courses_with_both st \<union> both_codes courses\<rparr>))"

section \<open>Time discretization\<close>

text \<open>\<^verbatim>\<open>range(a, b)\<close> over Python integers.\<close>

definition py_range :: "int \<Rightarrow> int \<Rightarrow> int list" where
  "py_range a b = [a..b - 1]"

definition setup_time_parameters :: "int \<times> int \<Rightarrow> scheduler \<Rightarrow> scheduler" where
  "setup_time_parameters time_settings st =
     (let s = fst time_settings; e = snd time_settings;
          incd = (e - s) * 2;
          n = int (length (days st)) in
      st\<lparr> start_t := s, end_t := e, inc_hr := 2, inc_day := incd, total_inc := incd * n,
          lab_starts := concat (map (\<lambda>d. py_range (d * incd) (d * incd + incd - 2)) (py_range 0 n)) \<rparr>)"

section \<open>Occupancy ledger\<close>

definition slot_free :: "int set \<Rightarrow> int \<Rightarrow> int \<Rightarrow> bool" where
  "slot_free occupied dur start = (set (py_range start (start + dur)) \<inter> occupied = {})"

text \<open>The scan of \<^verbatim>\<open>get_available_time_slots\<close>: the test of the cap follows the append, and
  reaching it leaves the loop.\<close>

fun scan_starts :: "int set \<Rightarrow> int \<Rightarrow> int \<Rightarrow> int list \<Rightarrow> int list \<Rightarrow> int list" where
  "scan_starts occupied dur max_slots [] available_starts = available_starts"
| "scan_starts occupied dur max_slots (start # rest) available_starts =
     (if slot_free occupied dur start then
        (let avail = available_starts @ [start] in
         if int (length avail) \<ge> max_slots then avail
         else scan_starts occupied dur max_slots rest avail)
      else scan_starts occupied dur max_slots rest available_starts)"

definition search_space :: "scheduler \<Rightarrow> int \<Rightarrow> bool \<Rightarrow> int list" where
  "search_space st dur is_lab = (if is_lab then lab_starts st else py_range 0 (total_inc st - dur + 1))"

definition get_available_time_slots ::
    "scheduler \<Rightarrow> section_key \<Rightarrow> int \<Rightarrow> bool \<Rightarrow> int \<Rightarrow> int list" where
  "get_available_time_slots st section_key dur is_lab max_slots =
     scan_starts (section_occupied st section_key) dur max_slots (search_space st dur is_lab) []"

section \<open>The constraint model handed to the solver\<close>

text \<open>
  CP-SAT is an external collaborator. What the builder posts is kept as data. Every meeting
  owns four integer variables, named by the \<^verbatim>\<open>schedule_id\<close> current at its creation (each
  \<^verbatim>\<open>NewIntVar\<close> call of the source makes a fresh variable, and that counter never repeats).
  The auxiliary literals are eliminated through the two-sided reification the source posts:
  \<^verbatim>\<open>use_i_room_r\<close> is true exactly when \<open>room = r\<close>, so the optional interval it gates is
  \<open>OptIv i d r\<close>, present exactly when the room variable of meeting \<open>i\<close> is \<open>r\<close>; the day
  literals of \<^verbatim>\<open>add_block_day_constraints\<close> become a count in \<open>DayCap\<close>.
\<close>

datatype var = StartV nat | EndV nat | DayV nat | RoomV nat

datatype interval =
    FixedIv int int int
  | SessIv nat int
  | OptIv nat int int

datatype constr =
    FromValues var "int list"
  | IntVar var int int
  | EndEq nat int
  | DayLower nat int
  | DayUpper nat int
  | NoOverlap "interval list"
  | DayCap "nat list" int int
  | RoomEq nat nat

type_synonym assignment = "var \<Rightarrow> int"

fun present :: "assignment \<Rightarrow> interval \<Rightarrow> bool" where
  "present a (FixedIv s d e) = True"
| "present a (SessIv i d) = True"
| "present a (OptIv i d r) = (a (RoomV i) = r)"

fun iv_start :: "assignment \<Rightarrow> interval \<Rightarrow> int" where
  "iv_start a (FixedIv s d e) = s"
| "iv_start a (SessIv i d) = a (StartV i)"
| "iv_start a (OptIv i d r) = a (StartV i)"

fun iv_end :: "assignment \<Rightarrow> interval \<Rightarrow> int" where
  "iv_end a (FixedIv s d e) = e"
| "iv_end a (SessIv i d) = a (EndV i)"
| "iv_end a (OptIv i d r) = a (EndV i)"

definition apart :: "assignment \<Rightarrow> interval \<Rightarrow> interval \<Rightarrow> bool" where
  "apart a x y =
     (\<not> present a x \<or> \<not> present a y \<or> iv_end a x \<le> iv_start a y \<or> iv_end a y \<le> iv_start a x)"

fun no_overlap :: "assignment \<Rightarrow> interval list \<Rightarrow> bool" where
  "no_overlap a [] = True"
| "no_overlap a (x # xs) = ((\<forall>y \<in> set xs. apart a x y) \<and> no_overlap a xs)"

fun sat :: "assignment \<Rightarrow> constr \<Rightarrow> bool" where
  "sat a (FromValues v vs) = (a v \<in> set vs)"
| "sat a (IntVar v lo hi) = (lo \<le> a v \<and> a v \<le> hi)"
| "sat a (EndEq i d) = (a (EndV i) = a (StartV i) + d)"
| "sat a (DayLower i incd) = (a (StartV i) \<ge> a (DayV i) * incd)"
| "sat a (DayUpper i incd) = (a (StartV i) < (a (DayV i) + 1) * incd)"
| "sat a (NoOverlap ivs) = no_overlap a ivs"
| "sat a (DayCap ids d m) = (int (length (filter (\<lambda>i. a (DayV i) = d) ids)) \<le> m)"
| "sat a (RoomEq v v0) = (a (RoomV v) = a (RoomV v0))"

definition satisfies :: "assignment \<Rightarrow> constr list \<Rightarrow> bool" where
  "satisfies a m = list_all (sat a) m"

text \<open>
  The solver: called with the number of the call, the constraints, whether an objective was
  posted, and the time limit; it answers \<open>None\<close> (no \<^verbatim>\<open>OPTIMAL\<close> or \<^verbatim>\<open>FEASIBLE\<close> status)
  or the values of the variables. Its contract is that the values it reports satisfy every
  posted constraint. The objective terms of \<^verbatim>\<open>add_phase_objectives\<close> only add auxiliary
  variables and narrow the choice among such answers; they are represented by the flag.
\<close>

type_synonym solver = "nat \<Rightarrow> constr list \<Rightarrow> bool \<Rightarrow> int \<Rightarrow> assignment option"

definition sound_solver :: "solver \<Rightarrow> bool" where
  "sound_solver solver = (\<forall>n m opt t a. solver n m opt t = Some a \<longrightarrow> satisfies a m)"

text \<open>The session dictionary of \<^verbatim>\<open>create_session_type\<close>; its variables are those of \<open>s_id\<close>.\<close>

record sess =
  s_id :: nat
  s_code :: string
  s_title :: string
  s_prog :: string
  s_yr :: int
  s_blk :: int
  s_type :: string
  s_duration :: int

text \<open>What a build mutates: the model, the two interval dictionaries (entries in insertion
  order, a bucket being the entries of one key) and \<^verbatim>\<open>self.schedule_id\<close>.\<close>

record build =
  model :: "constr list"
  section_intervals :: "(section_key \<times> interval) list"
  room_intervals :: "(room_key \<times> interval) list"
  next_id :: nat

definition and_then ::
    "'a outcome \<times> 's \<Rightarrow> ('a \<Rightarrow> 's \<Rightarrow> 'b outcome \<times> 's) \<Rightarrow> 'b outcome \<times> 's" where
  "and_then m f = (case m of (Raise e, s) \<Rightarrow> (Raise e, s) | (Fail, s) \<Rightarrow> (Fail, s) | (Done x, s) \<Rightarrow> f x s)"

section \<open>Phase model builder\<close>

definition new_session ::
    "scheduler \<Rightarrow> string \<Rightarrow> string \<Rightarrow> int \<Rightarrow> int \<Rightarrow> string \<Rightarrow> int \<Rightarrow> string \<Rightarrow> section_key \<Rightarrow>
     int list \<Rightarrow> int \<Rightarrow> build \<Rightarrow> sess \<times> build" where
  "new_session st code prog yr blk sess_type dur ttl section_key domain_values num_rooms b =
     (let i = next_id b in
      (\<lparr> s_id = i, s_code = code, s_title = ttl, s_prog = prog, s_yr = yr, s_blk = blk,
         s_type = sess_type, s_duration = dur \<rparr>,
       b\<lparr> model := model b @
            [FromValues (StartV i) domain_values,
             IntVar (EndV i) dur (total_inc st),
             EndEq i dur,
             IntVar (DayV i) 0 (int (length (days st)) - 1),
             DayLower i (inc_day st),
             DayUpper i (inc_day st),
             IntVar (RoomV i) 0 (num_rooms - 1)],
          section_intervals := section_intervals b @ [(section_key, SessIv i dur)],
          room_intervals := room_intervals b @
            map (\<lambda>r_idx. ((sess_type, r_idx), OptIv i dur r_idx)) (py_range 0 num_rooms),
          next_id := i + 1 \<rparr>))"

text \<open>The loop \<^verbatim>\<open>for i in range(units)\<close> of \<^verbatim>\<open>create_session_type\<close>.\<close>

fun session_loop ::
    "scheduler \<Rightarrow> string \<Rightarrow> string \<Rightarrow> int \<Rightarrow> int \<Rightarrow> string \<Rightarrow> int \<Rightarrow> string \<Rightarrow> section_key \<Rightarrow>
     int list \<Rightarrow> int \<Rightarrow> nat \<Rightarrow> sess list \<Rightarrow> build \<Rightarrow> sess list outcome \<times> build" where
  "session_loop st code prog yr blk sess_type dur ttl section_key available_starts num_rooms 0 sessions b =
     (Done sessions, b)"
| "session_loop st code prog yr blk sess_type dur ttl section_key available_starts num_rooms (Suc n) sessions b =
     (let domain_values = take (min (length available_starts) 200) available_starts in
      if domain_values = [] then (Fail, b)
      else
        (let (s, b') = new_session st code prog yr blk sess_type dur ttl section_key domain_values num_rooms b
         in session_loop st code prog yr blk sess_type dur ttl section_key available_starts num_rooms n
              (sessions @ [s]) b'))"

definition add_block_day_constraints :: "scheduler \<Rightarrow> nat list \<Rightarrow> bool \<Rightarrow> constr list" where
  "add_block_day_constraints st day_vars is_lab =
     (let max_per_day = (if is_lab then 2 else 1) in
      map (\<lambda>d. DayCap day_vars d max_per_day) (py_range 0 (int (length (days st)))))"

definition create_session_type ::
    "scheduler \<Rightarrow> string \<Rightarrow> string \<Rightarrow> int \<Rightarrow> int \<Rightarrow> string \<Rightarrow> int \<Rightarrow> int \<Rightarrow> string \<Rightarrow> section_key \<Rightarrow>
     bool \<Rightarrow> build \<Rightarrow> sess list outcome \<times> build" where
  "create_session_type st code prog yr blk sess_type units dur ttl section_key is_lab b =
     (let avail = get_available_time_slots st section_key dur is_lab 1000;
          available_starts =
            (if avail = [] then (if is_lab then lab_starts st else py_range 0 (total_inc st - dur + 1))
             else avail)
      in
      if available_starts = [] then (Fail, b)
      else
        (case rooms st sess_type of
           None \<Rightarrow> (Raise KeyError, b)
         | Some rs \<Rightarrow>
             and_then
               (session_loop st code prog yr blk sess_type dur ttl section_key available_starts
                  (int (length rs)) (nat units) [] b)
               (\<lambda>sessions b'.
                  (Done sessions,
                   if length sessions > 1
                   then b'\<lparr>model := model b' @ add_block_day_constraints st (map s_id sessions) is_lab\<rparr>
                   else b'))))"

text \<open>The loop \<^verbatim>\<open>for b in range(blocks)\<close> of \<^verbatim>\<open>create_course_sessions\<close>; \<^verbatim>\<open>chr\<close> raises above
  the last code point.\<close>

fun block_loop :: "scheduler \<Rightarrow> course \<Rightarrow> int list \<Rightarrow> sess list \<Rightarrow> build \<Rightarrow> sess list outcome \<times> build" where
  "block_loop st c [] all_sessions b = (Done all_sessions, b)"
| "block_loop st c (bi # rest) all_sessions b =
     (if 65 + bi > 1114111 then (Raise ValueError, b)
      else
        (let blk = 65 + bi; section_key = (program c, yearLevel c, blk) in
         and_then
           (if unitsLecture c > 0
            then create_session_type st (courseCode c) (program c) (yearLevel c) blk ''lecture''
                   (unitsLecture c) 2 (title c) section_key False b
            else (Done [], b))
           (\<lambda>lec b1.
              and_then
                (if unitsLab c > 0
                 then create_session_type st (courseCode c) (program c) (yearLevel c) blk ''lab''
                        (unitsLab c * 2) 3 (title c) section_key True b1
                 else (Done [], b1))
                (\<lambda>labs b2. block_loop st c rest (all_sessions @ lec @ labs) b2))))"

definition create_course_sessions :: "scheduler \<Rightarrow> course \<Rightarrow> build \<Rightarrow> sess list outcome \<times> build" where
  "create_course_sessions st c b = block_loop st c (py_range 0 (blocks c)) [] b"

definition sess_group :: "sess \<Rightarrow> string \<times> string \<times> int \<times> int \<times> string" where
  "sess_group s = (s_code s, s_prog s, s_yr s, s_blk s, s_type s)"

text \<open>Keys of a dictionary in insertion order.\<close>

definition dict_keys :: "'k list \<Rightarrow> 'k list" where
  "dict_keys ks = rev (remdups (rev ks))"

definition bucket :: "'k \<Rightarrow> ('k \<times> 'v) list \<Rightarrow> 'v list" where
  "bucket k entries = map snd (filter (\<lambda>e. fst e = k) entries)"

definition add_room_consistency :: "sess list \<Rightarrow> constr list" where
  "add_room_consistency sessions =
     concat (map (\<lambda>k. case map s_id (filter (\<lambda>s. sess_group s = k) sessions) of
                        [] \<Rightarrow> []
                      | v0 # rest \<Rightarrow> map (\<lambda>v. RoomEq v v0) rest)
               (dict_keys (map sess_group sessions)))"

definition no_overlap_constraints :: "('k \<times> interval) list \<Rightarrow> constr list" where
  "no_overlap_constraints entries =
     map (\<lambda>k. NoOverlap (bucket k entries)) (dict_keys (map fst entries))"

section \<open>Phase solver driver\<close>

text \<open>\<^verbatim>\<open>int(x)\<close> on a float truncates towards zero.\<close>

definition py_int :: "real \<Rightarrow> int" where
  "py_int x = (if x \<ge> 0 then \<lfloor>x\<rfloor> else \<lceil>x\<rceil>)"

text \<open>List indexing with Python's negative indices.\<close>

definition py_nth :: "'a list \<Rightarrow> int \<Rightarrow> py_error + 'a" where
  "py_nth xs i =
     (let n = int (length xs) in
      if 0 \<le> i \<and> i < n then Inr (xs ! nat i)
      else if - n \<le> i \<and> i < 0 then Inr (xs ! nat (n + i))
      else Inl IndexError)"

definition get_phase_timeout :: "int \<Rightarrow> int \<Rightarrow> real \<Rightarrow> py_error + int" where
  "get_phase_timeout phase_num total_phases phase_difficulty =
     (let base_times = [150, 200, 700 :: int] in
      case (if phase_num \<le> int (length base_times) then py_nth base_times (phase_num - 1)
            else Inr 300) of
        Inl e \<Rightarrow> Inl e
      | Inr timeout \<Rightarrow> Inr (py_int (real_of_int timeout * phase_difficulty)))"

definition calculate_phase_difficulty :: "course list \<Rightarrow> real" where
  "calculate_phase_difficulty phase_courses =
     (if phase_courses = [] then 0.5
      else
        (let total_units = sum_list (map (\<lambda>c. unitsLecture c + unitsLab c * 2) phase_courses);
             total_blocks = sum_list (map blocks phase_courses);
             avg_units = real_of_int total_units / real (length phase_courses);
             avg_blocks = real_of_int total_blocks / real (length phase_courses);
             difficulty = (avg_units / 5.0) * (avg_blocks / 1.5)
         in max 0.5 (min 2.0 difficulty)))"

text \<open>The time limit of the second attempt, \<^verbatim>\<open>int(timeout * 1.5)\<close>.\<close>

definition retry_timeout :: "int \<Rightarrow> int" where
  "retry_timeout timeout = py_int (real_of_int timeout * 1.5)"

definition prior_fixed :: "scheduler \<Rightarrow> (room_key \<times> interval) list" where
  "prior_fixed st =
     concat (map (\<lambda>ev. if rooms st (room_type ev) = None then []
                        else [((room_type ev, room_idx ev),
                               FixedIv (start_slot ev) (duration ev) (start_slot ev + duration ev))])
               (global_schedule st))"

definition course_progress :: "int \<Rightarrow> int \<Rightarrow> nat \<Rightarrow> nat \<Rightarrow> int" where
  "course_progress phase_num total_phases idx n =
     (let course_progress_start = 50 + (phase_num - 1) * 40 div total_phases;
          course_progress_end = 50 + phase_num * 40 div total_phases
      in course_progress_start +
           py_int (real (idx + 1) / real n * real_of_int (course_progress_end - course_progress_start)))"

text \<open>The loop over the courses of a phase; \<open>n\<close> is \<^verbatim>\<open>len(phase_courses)\<close>. The scheduler is
  threaded for the progress writes.\<close>

fun course_loop ::
    "int \<Rightarrow> int \<Rightarrow> nat \<Rightarrow> course list \<Rightarrow> nat \<Rightarrow> sess list \<Rightarrow> build \<times> scheduler \<Rightarrow>
     sess list outcome \<times> build \<times> scheduler" where
  "course_loop phase_num total_phases n [] idx phase_sessions bs = (Done phase_sessions, bs)"
| "course_loop phase_num total_phases n (c # rest) idx phase_sessions bs =
     (case create_course_sessions (snd bs) c (fst bs) of
        (Raise e, b') \<Rightarrow> (Raise e, b', snd bs)
      | (Fail, b') \<Rightarrow> (Fail, b', snd bs)
      | (Done sessions, b') \<Rightarrow>
          course_loop phase_num total_phases n rest (idx + 1) (phase_sessions @ sessions)
            (b', update_progress (course_progress phase_num total_phases idx n) (snd bs)))"

section \<open>Solution extractor\<close>

text \<open>The formatted \<^verbatim>\<open>period\<close> string is left out of the event; the division by
  \<^verbatim>\<open>inc_day\<close> that computes it is kept, since it can raise.\<close>

definition display_code :: "scheduler \<Rightarrow> sess \<Rightarrow> string" where
  "display_code st s =
     (if s_code s \<in> courses_with_both st
      then (if s_type s = ''lecture'' then s_code s @ ''A'' else s_code s @ ''L'')
      else s_code s)"

definition extract_event :: "scheduler \<Rightarrow> assignment \<Rightarrow> sess \<Rightarrow> py_error + event" where
  "extract_event st a s =
     (let room_idx = a (RoomV (s_id s)); day_idx = a (DayV (s_id s)); start_val = a (StartV (s_id s)) in
      if inc_day st = 0 then Inl ZeroDivisionError
      else
        (case py_nth (days st) day_idx of
           Inl e \<Rightarrow> Inl e
         | Inr day_name \<Rightarrow>
             (case rooms st (s_type s) of
                None \<Rightarrow> Inl KeyError
              | Some rs \<Rightarrow>
                  (case py_nth rs room_idx of
                     Inl e \<Rightarrow> Inl e
                   | Inr room_name \<Rightarrow>
                       Inr \<lparr> schedule_id = s_id s, displayCode = display_code st s,
                             baseCourseCode = s_code s, ev_title = s_title s, ev_program = s_prog s,
                             year = s_yr s,
                             session = (if s_type s = ''lecture'' then ''Lecture'' else ''Laboratory''),
                             block = s_blk s, day = day_name, room = room_name,
                             start_slot = start_val, duration = s_duration s,
                             room_type = s_type s, room_idx = room_idx \<rparr>))))"

fun extract_phase_solution :: "scheduler \<Rightarrow> assignment \<Rightarrow> sess list \<Rightarrow> py_error + event list" where
  "extract_phase_solution st a [] = Inr []"
| "extract_phase_solution st a (s # rest) =
     (case extract_event st a s of
        Inl e \<Rightarrow> Inl e
      | Inr ev \<Rightarrow>
          (case extract_phase_solution st a rest of
             Inl e \<Rightarrow> Inl e
           | Inr evs \<Rightarrow> Inr (ev # evs)))"

definition commit :: "event \<Rightarrow> scheduler \<Rightarrow> scheduler" where
  "commit ev st =
     (let section_key = (ev_program ev, year ev, block ev);
          room_key = (room_type ev, room_idx ev);
          slots = set (py_range (start_slot ev) (start_slot ev + duration ev))
      in st\<lparr> section_occupied := (section_occupied st)(section_key := section_occupied st section_key \<union> slots),
             occupied_slots := (occupied_slots st)(room_key := occupied_slots st room_key \<union> slots) \<rparr>)"

definition update_occupancy_from_schedule :: "event list \<Rightarrow> scheduler \<Rightarrow> scheduler" where
  "update_occupancy_from_schedule schedule st = fold commit schedule st"

text \<open>\<^verbatim>\<open>_solve_phase_attempt\<close>.\<close>

definition phase_model :: "build \<Rightarrow> sess list \<Rightarrow> constr list" where
  "phase_model b phase_sessions =
     model b @ no_overlap_constraints (section_intervals b) @ no_overlap_constraints (room_intervals b)
       @ add_room_consistency phase_sessions"

definition solve_phase_attempt ::
    "solver \<Rightarrow> course list \<Rightarrow> int \<Rightarrow> int \<Rightarrow> int \<Rightarrow> bool \<Rightarrow> scheduler \<Rightarrow> event list outcome \<times> scheduler" where
  "solve_phase_attempt solver phase_courses phase_num total_phases timeout optimize st =
     (let b0 = \<lparr> model = [], section_intervals = [], room_intervals = prior_fixed st,
                 next_id = next_schedule_id st \<rparr>
      in
      case course_loop phase_num total_phases (length phase_courses) phase_courses 0 [] (b0, st) of
        (Raise e, b, st1) \<Rightarrow> (Raise e, st1\<lparr>next_schedule_id := next_id b\<rparr>)
      | (Fail, b, st1) \<Rightarrow> (Fail, st1\<lparr>next_schedule_id := next_id b\<rparr>)
      | (Done phase_sessions, b, st1) \<Rightarrow>
          (let st2 = st1\<lparr>next_schedule_id := next_id b, solver_calls := solver_calls st1 + 1\<rparr> in
           case solver (solver_calls st1) (phase_model b phase_sessions) optimize timeout of
             None \<Rightarrow> (Fail, st2)
           | Some a \<Rightarrow>
               (case extract_phase_solution st2 a phase_sessions of
                  Inl e \<Rightarrow> (Raise e, st2)
                | Inr phase_schedule \<Rightarrow>
                    (Done phase_schedule, update_occupancy_from_schedule phase_schedule st2))))"

definition solve_phase ::
    "solver \<Rightarrow> course list \<Rightarrow> int \<Rightarrow> int \<Rightarrow> scheduler \<Rightarrow> event list outcome \<times> scheduler" where
  "solve_phase solver phase_courses phase_num total_phases st =
     (if phase_courses = [] then (Done [], st)
      else
        (case get_phase_timeout phase_num total_phases (calculate_phase_difficulty phase_courses) of
           Inl e \<Rightarrow> (Raise e, st)
         | Inr timeout \<Rightarrow>
             (case solve_phase_attempt solver phase_courses phase_num total_phases timeout False st of
                (Raise e, st1) \<Rightarrow> (Raise e, st1)
              | (Done result, st1) \<Rightarrow> (Done result, st1)
              | (Fail, st1) \<Rightarrow>
                  solve_phase_attempt solver phase_courses phase_num total_phases
                    (retry_timeout timeout) True st1)))"

section \<open>Pipeline orchestrator\<close>

definition phases_present :: "(SchedulingPhase \<times> course) list \<Rightarrow> SchedulingPhase list" where
  "phases_present pcs =
     filter (\<lambda>p. p \<in> set (map fst pcs)) [PHASE_1_FLEXIBLE, PHASE_2_REGULAR, PHASE_3_CRITICAL]"

definition courses_of_phase :: "(SchedulingPhase \<times> course) list \<Rightarrow> SchedulingPhase \<Rightarrow> course list" where
  "courses_of_phase pcs p = map snd (filter (\<lambda>pc. fst pc = p) pcs)"

text \<open>The loop over the phases of \<^verbatim>\<open>solve\<close>; a failed phase writes \<open>-1\<close> and ends it.\<close>

fun phase_loop ::
    "solver \<Rightarrow> int \<Rightarrow> SchedulingPhase list \<Rightarrow> int \<Rightarrow> event list \<Rightarrow> scheduler \<Rightarrow>
     event list outcome \<times> scheduler" where
  "phase_loop solver total_phases [] phase_num combined_schedule st = (Done combined_schedule, st)"
| "phase_loop solver total_phases (phase # rest) phase_num combined_schedule st =
     (case solve_phase solver (courses_of_phase (all_courses st) phase) phase_num total_phases st of
        (Raise e, st1) \<Rightarrow> (Raise e, st1)
      | (Fail, st1) \<Rightarrow> (Fail, update_progress (- 1) st1)
      | (Done phase_schedule, st1) \<Rightarrow>
          phase_loop solver total_phases rest (phase_num + 1) (combined_schedule @ phase_schedule)
            (st1\<lparr>global_schedule := combined_schedule @ phase_schedule\<rparr>))"

text \<open>Position of the first occurrence, \<^verbatim>\<open>list.index\<close> (which raises when there is none).\<close>

definition first_index :: "'a list \<Rightarrow> 'a \<Rightarrow> nat" where
  "first_index xs x = length (takeWhile (\<lambda>y. y \<noteq> x) xs)"

definition sort_schedule :: "scheduler \<Rightarrow> event list \<Rightarrow> py_error + event list" where
  "sort_schedule st combined_schedule =
     (if list_all (\<lambda>x. day x \<in> set (days st)) combined_schedule
      then Inr (sort_key (\<lambda>x. (first_index (days st) (day x), start_slot x)) combined_schedule)
      else Inl ValueError)"

text \<open>\<^verbatim>\<open>solve\<close> up to and including the final sort: the events still carry their scratch keys.\<close>

definition solve_events :: "solver \<Rightarrow> scheduler \<Rightarrow> event list outcome \<times> scheduler" where
  "solve_events solver st =
     (let st1 = update_progress 52 st;
          phases = phases_present (all_courses st1)
      in
      case phase_loop solver (int (length phases)) phases 1 [] st1 of
        (Raise e, st2) \<Rightarrow> (Raise e, st2)
      | (Fail, st2) \<Rightarrow> (Fail, st2)
      | (Done combined_schedule, st2) \<Rightarrow>
          (case sort_schedule st2 combined_schedule of
             Inl e \<Rightarrow> (Raise e, st2)
           | Inr sorted_schedule \<Rightarrow> (Done sorted_schedule, st2)))"

datatype result = Impossible | Schedule "out_event list"

text \<open>\<^verbatim>\<open>solve\<close>: the scratch keys are deleted, progress 95 is written.\<close>

definition solve :: "solver \<Rightarrow> scheduler \<Rightarrow> (py_error + result) \<times> scheduler" where
  "solve solver st =
     (case solve_events solver st of
        (Raise e, st2) \<Rightarrow> (Inl e, st2)
      | (Fail, st2) \<Rightarrow> (Inr Impossible, st2)
      | (Done sorted_schedule, st2) \<Rightarrow>
          (Inr (Schedule (map out_event.truncate sorted_schedule)), update_progress 95 st2))"

text \<open>The four catalog loaders: each raises or returns its catalog.\<close>

record catalogs =
  load_courses :: "py_error + course list"
  load_rooms :: "py_error + (string \<Rightarrow> string list option)"
  load_time_settings :: "py_error + (int \<times> int)"
  load_days :: "py_error + string list"

definition load_data :: "catalogs \<Rightarrow> scheduler \<Rightarrow> py_error option \<times> scheduler" where
  "load_data env st =
     (let st1 = update_progress 5 st in
      case load_courses env of
        Inl e \<Rightarrow> (Some e, st1)
      | Inr courses \<Rightarrow>
          (let (pcs, st2) = prioritize_and_partition_courses courses st1;
               st3 = update_progress 15 (st2\<lparr>all_courses := pcs\<rparr>) in
           case load_rooms env of
             Inl e \<Rightarrow> (Some e, st3)
           | Inr rs \<Rightarrow>
               (let st4 = update_progress 25 (st3\<lparr>rooms := rs\<rparr>) in
                case load_time_settings env of
                  Inl e \<Rightarrow> (Some e, st4)
                | Inr ts \<Rightarrow>
                    (let st5 = update_progress 35 st4 in
                     case load_days env of
                       Inl e \<Rightarrow> (Some e, st5)
                     | Inr ds \<Rightarrow>
                         (let st6 = update_progress 45 (st5\<lparr>days := ds\<rparr>) in
                          (None, update_progress 50 (setup_time_parameters ts st6)))))))"

text \<open>The outcome of a run: the value returned, the result dictionary, the progress writes.\<close>

record run =
  returned :: result
  schedule_dict :: "nat \<Rightarrow> out_event option"
  progress :: "int list"

definition dict_of :: "out_event list \<Rightarrow> (nat \<Rightarrow> out_event option)" where
  "dict_of schedule = fold (\<lambda>e m. m(schedule_id e \<mapsto> e)) schedule Map.empty"

definition write_final :: "string option \<Rightarrow> int \<Rightarrow> int list \<Rightarrow> int list" where
  "write_final pid v written = (if truthy pid then written @ [v] else written)"

definition generate_schedule ::
    "solver \<Rightarrow> catalogs \<Rightarrow> string option \<Rightarrow> (nat \<Rightarrow> out_event option) \<Rightarrow> run" where
  "generate_schedule solver env pid old_dict =
     (case load_data env (init pid) of
        (Some e, st1) \<Rightarrow>
          \<lparr> returned = Impossible, schedule_dict = old_dict,
            progress = write_final pid (- 1) (progress_state st1) \<rparr>
      | (None, st1) \<Rightarrow>
          (case solve solver st1 of
             (Inl e, st2) \<Rightarrow>
               \<lparr> returned = Impossible, schedule_dict = old_dict,
                 progress = write_final pid (- 1) (progress_state st2) \<rparr>
           | (Inr Impossible, st2) \<Rightarrow>
               \<lparr> returned = Impossible, schedule_dict = old_dict, progress = progress_state st2 \<rparr>
           | (Inr (Schedule schedule), st2) \<Rightarrow>
               \<lparr> returned = Schedule schedule, schedule_dict = dict_of schedule,
                 progress = write_final pid 100 (progress_state st2) \<rparr>))"

text \<open>The events of a run as they stand after the final sort, before the scratch keys go.\<close>

definition run_events :: "solver \<Rightarrow> catalogs \<Rightarrow> string option \<Rightarrow> event list outcome" where
  "run_events solver env pid =
     (case load_data env (init pid) of
        (Some e, st1) \<Rightarrow> Raise e
      | (None, st1) \<Rightarrow> fst (solve_events solver st1))"

section \<open>Concrete catalogs and solver answers\<close>

text \<open>Inputs on which the theorems below are instantiated and the code is evaluated.\<close>

definition c_fr101 :: course where
  "c_fr101 = \<lparr> courseCode = ''FR101'', title = ''French'', program = ''BSCS'', yearLevel = 1,
     unitsLecture = 1, unitsLab = 0, blocks = 1 \<rparr>"

definition c_cs150 :: course where
  "c_cs150 = \<lparr> courseCode = ''CS150'', title = ''Systems'', program = ''BSCS'', yearLevel = 2,
     unitsLecture = 1, unitsLab = 1, blocks = 1 \<rparr>"

definition c_en400 :: course where
  "c_en400 = \<lparr> courseCode = ''EN400'', title = ''Thesis'', program = ''BSCS'', yearLevel = 4,
     unitsLecture = 1, unitsLab = 1, blocks = 2 \<rparr>"

definition c_ma101 :: course where
  "c_ma101 = \<lparr> courseCode = ''MA101'', title = ''Calculus'', program = ''BSCS'', yearLevel = 1,
     unitsLecture = 3, unitsLab = 0, blocks = 1 \<rparr>"

text \<open>Two days of two hours each, slots 2 and 3 of section \<^verbatim>\<open>('BSCS', 1, 'A')\<close> taken.\<close>

definition st_two_days :: scheduler where
  "st_two_days = (setup_time_parameters (8, 10) ((init None)\<lparr>days := [''Mon'', ''Tue'']\<rparr>))
     \<lparr>section_occupied := (\<lambda>_. {})((''BSCS'', 1, 65) := {2, 3})\<rparr>"

text \<open>A solver that answers with a fixed assignment when it satisfies the model it is given,
  and with no solution otherwise.\<close>

definition checked :: "assignment \<Rightarrow> solver" where
  "checked a = (\<lambda>n m opt t. if satisfies a m then Some a else None)"

text \<open>Room contention across phases: a first-year lecture and a fourth-year lecture, one
  lecture room, one day of two hours.\<close>

definition c_en401 :: course where
  "c_en401 = \<lparr> courseCode = ''EN401'', title = ''Seminar'', program = ''BSCS'', yearLevel = 4,
     unitsLecture = 1, unitsLab = 0, blocks = 1 \<rparr>"

definition one_room_each :: "string \<Rightarrow> string list option" where
  "one_room_each = (\<lambda>k. if k = ''lecture'' then Some [''L1''] else if k = ''lab'' then Some [''B1''] else None)"

definition env_contention :: catalogs where
  "env_contention = \<lparr> load_courses = Inr [c_en401, c_fr101], load_rooms = Inr one_room_each,
     load_time_settings = Inr (8, 10), load_days = Inr [''Mon''] \<rparr>"

fun values_contention :: assignment where
  "values_contention (StartV i) = (if i = 1 then 0 else 2)"
| "values_contention (EndV i) = (if i = 1 then 2 else 4)"
| "values_contention (DayV i) = 0"
| "values_contention (RoomV i) = 0"

definition ev_fr101 :: event where
  "ev_fr101 = \<lparr> schedule_id = 1, displayCode = ''FR101'', baseCourseCode = ''FR101'',
     ev_title = ''French'', ev_program = ''BSCS'', year = 1, session = ''Lecture'', block = 65,
     day = ''Mon'', room = ''L1'', start_slot = 0, duration = 2, room_type = ''lecture'', room_idx = 0 \<rparr>"

definition ev_en401 :: event where
  "ev_en401 = \<lparr> schedule_id = 2, displayCode = ''EN401'', baseCourseCode = ''EN401'',
     ev_title = ''Seminar'', ev_program = ''BSCS'', year = 4, session = ''Lecture'', block = 65,
     day = ''Mon'', room = ''L1'', start_slot = 2, duration = 2, room_type = ''lecture'', room_idx = 0 \<rparr>"

text \<open>One course with a lecture unit and a lab unit, one day of four hours.\<close>

definition env_cs150 :: catalogs where
  "env_cs150 = \<lparr> load_courses = Inr [c_cs150], load_rooms = Inr one_room_each,
     load_time_settings = Inr (8, 12), load_days = Inr [''Mon''] \<rparr>"

fun values_cs150 :: assignment where
  "values_cs150 (StartV i) = (if i = 1 then 0 else if i = 2 then 2 else 5)"
| "values_cs150 (EndV i) = (if i = 1 then 2 else if i = 2 then 5 else 8)"
| "values_cs150 (DayV i) = 0"
| "values_cs150 (RoomV i) = 0"

definition evs_cs150 :: "event list" where
  "evs_cs150 =
    [\<lparr> schedule_id = 1, displayCode = ''CS150A'', baseCourseCode = ''CS150'', ev_title = ''Systems'',
       ev_program = ''BSCS'', year = 2, session = ''Lecture'', block = 65, day = ''Mon'', room = ''L1'',
       start_slot = 0, duration = 2, room_type = ''lecture'', room_idx = 0 \<rparr>,
     \<lparr> schedule_id = 2, displayCode = ''CS150L'', baseCourseCode = ''CS150'', ev_title = ''Systems'',
       ev_program = ''BSCS'', year = 2, session = ''Laboratory'', block = 65, day = ''Mon'', room = ''B1'',
       start_slot = 2, duration = 3, room_type = ''lab'', room_idx = 0 \<rparr>,
     \<lparr> schedule_id = 3, displayCode = ''CS150L'', baseCourseCode = ''CS150'', ev_title = ''Systems'',
       ev_program = ''BSCS'', year = 2, session = ''Laboratory'', block = 65, day = ''Mon'', room = ''B1'',
       start_slot = 5, duration = 3, room_type = ''lab'', room_idx = 0 \<rparr>]"

text \<open>A first-year lecture course (phase 1) and a first-year lab course (phase 3) of the
  same program, two days of two hours: the lectures at slots 1 and 5 leave the section no free
  lab start, so the builder of the later phase falls back to the whole lab start set.\<close>

definition c_fr102 :: course where
  "c_fr102 = \<lparr> courseCode = ''FR102'', title = ''French II'', program = ''BSCS'', yearLevel = 1,
     unitsLecture = 2, unitsLab = 0, blocks = 1 \<rparr>"

definition c_cs1l :: course where
  "c_cs1l = \<lparr> courseCode = ''CS1L'', title = ''Computing Lab'', program = ''BSCS'', yearLevel = 1,
     unitsLecture = 0, unitsLab = 1, blocks = 1 \<rparr>"

definition env_clash :: catalogs where
  "env_clash = \<lparr> load_courses = Inr [c_cs1l, c_fr102], load_rooms = Inr one_room_each,
     load_time_settings = Inr (8, 10), load_days = Inr [''Mon'', ''Tue''] \<rparr>"

fun values_clash :: assignment where
  "values_clash (StartV i) = (if i = 1 then 1 else if i = 2 then 5 else if i = 3 then 0 else 4)"
| "values_clash (EndV i) = (if i = 1 then 3 else if i = 2 then 7 else if i = 3 then 3 else 7)"
| "values_clash (DayV i) = (if i = 1 then 0 else if i = 2 then 1 else if i = 3 then 0 else 1)"
| "values_clash (RoomV i) = 0"

definition ev_lab_mon :: event where
  "ev_lab_mon = \<lparr> schedule_id = 3, displayCode = ''CS1L'', baseCourseCode = ''CS1L'',
     ev_title = ''Computing Lab'', ev_program = ''BSCS'', year = 1, session = ''Laboratory'', block = 65,
     day = ''Mon'', room = ''B1'', start_slot = 0, duration = 3, room_type = ''lab'', room_idx = 0 \<rparr>"

definition ev_lec_mon :: event where
  "ev_lec_mon = \<lparr> schedule_id = 1, displayCode = ''FR102'', baseCourseCode = ''FR102'',
     ev_title = ''French II'', ev_program = ''BSCS'', year = 1, session = ''Lecture'', block = 65,
     day = ''Mon'', room = ''L1'', start_slot = 1, duration = 2, room_type = ''lecture'', room_idx = 0 \<rparr>"

definition ev_lab_tue :: event where
  "ev_lab_tue = \<lparr> schedule_id = 4, displayCode = ''CS1L'', baseCourseCode = ''CS1L'',
     ev_title = ''Computing Lab'', ev_program = ''BSCS'', year = 1, session = ''Laboratory'', block = 65,
     day = ''Tue'', room = ''B1'', start_slot = 4, duration = 3, room_type = ''lab'', room_idx = 0 \<rparr>"

definition ev_lec_tue :: event where
  "ev_lec_tue = \<lparr> schedule_id = 2, displayCode = ''FR102'', baseCourseCode = ''FR102'',
     ev_title = ''French II'', ev_program = ''BSCS'', year = 1, session = ''Lecture'', block = 65,
     day = ''Tue'', room = ''L1'', start_slot = 5, duration = 2, room_type = ''lecture'', room_idx = 0 \<rparr>"

text \<open>One lecture, two days of two hours, and the start 3: the last slot of Monday.\<close>

definition env_cross :: catalogs where
  "env_cross = \<lparr> load_courses = Inr [c_fr101], load_rooms = Inr one_room_each,
     load_time_settings = Inr (8, 10), load_days = Inr [''Mon'', ''Tue''] \<rparr>"

fun values_cross :: assignment where
  "values_cross (StartV i) = 3"
| "values_cross (EndV i) = 5"
| "values_cross (DayV i) = 0"
| "values_cross (RoomV i) = 0"

definition ev_cross :: event where
  "ev_cross = \<lparr> schedule_id = 1, displayCode = ''FR101'', baseCourseCode = ''FR101'',
     ev_title = ''French'', ev_program = ''BSCS'', year = 1, session = ''Lecture'', block = 65,
     day = ''Mon'', room = ''L1'', start_slot = 3, duration = 2, room_type = ''lecture'', room_idx = 0 \<rparr>"




section \<open>Specification predicates\<close>

text \<open>The phase numbers of the specification: 1 for the flexible, 2 for the regular and 3 for
  the critical phase.\<close>

definition phase_number :: "SchedulingPhase \<Rightarrow> int" where
  "phase_number p = (case p of PHASE_1_FLEXIBLE \<Rightarrow> 1 | PHASE_2_REGULAR \<Rightarrow> 2 | PHASE_3_CRITICAL \<Rightarrow> 3)"

text \<open>A scheduler whose lab start set is the one time discretization computes.\<close>

definition discretized :: "scheduler \<Rightarrow> bool" where
  "discretized st = (lab_starts st =
     concat (map (\<lambda>d. py_range (d * inc_day st) (d * inc_day st + inc_day st - 2))
       (py_range 0 (int (length (days st))))))"

text \<open>A build only adds to the model and the interval dictionaries, and only counts upwards.\<close>

definition grows :: "build \<Rightarrow> build \<Rightarrow> bool" where
  "grows b b' = (set (model b) \<subseteq> set (model b') \<and>
     set (section_intervals b) \<subseteq> set (section_intervals b') \<and>
     set (room_intervals b) \<subseteq> set (room_intervals b') \<and> next_id b \<le> next_id b')"

text \<open>What the builder has posted for a meeting, as far as room exclusivity needs it: the
  domain of its room variable, the equation of its end, and one optional interval per room.\<close>

definition posted :: "(string \<Rightarrow> string list option) \<Rightarrow> build \<Rightarrow> sess \<Rightarrow> bool" where
  "posted rms b s = (\<exists>rs. rms (s_type s) = Some rs \<and>
     IntVar (RoomV (s_id s)) 0 (int (length rs) - 1) \<in> set (model b) \<and>
     EndEq (s_id s) (s_duration s) \<in> set (model b) \<and>
     (\<forall>r \<in> set (py_range 0 (int (length rs))).
        ((s_type s, r), OptIv (s_id s) (s_duration s) r) \<in> set (room_intervals b)))"

text \<open>The part of a session that does not depend on the identifier, and the sessions a
  course asks for: per block, one meeting per lecture unit and two per lab unit.\<close>

definition sess_shape :: "sess \<Rightarrow> string \<times> string \<times> int \<times> int \<times> string \<times> int" where
  "sess_shape s = (s_code s, s_prog s, s_yr s, s_blk s, s_type s, s_duration s)"

definition block_shape :: "course \<Rightarrow> int \<Rightarrow> (string \<times> string \<times> int \<times> int \<times> string \<times> int) list" where
  "block_shape c bi =
     replicate (nat (unitsLecture c)) (courseCode c, program c, yearLevel c, 65 + bi, ''lecture'', 2) @
     replicate (nat (unitsLab c * 2)) (courseCode c, program c, yearLevel c, 65 + bi, ''lab'', 3)"

definition course_shape :: "course \<Rightarrow> (string \<times> string \<times> int \<times> int \<times> string \<times> int) list" where
  "course_shape c = concat (map (block_shape c) (py_range 0 (blocks c)))"

text \<open>The scheduler after further progress writes, and what a write with the given
  \<^verbatim>\<open>process_id\<close> appends.\<close>

definition wrote :: "scheduler \<Rightarrow> int list \<Rightarrow> scheduler" where
  "wrote st ws = st\<lparr>progress_state := progress_state st @ ws\<rparr>"

definition written :: "string option \<Rightarrow> int list \<Rightarrow> int list" where
  "written pid vs = (if truthy pid then vs else [])"

text \<open>The progress values of the courses \<open>idx, \<dots>, idx + k - 1\<close> of a phase of \<open>n\<close> courses.\<close>

definition course_values :: "int \<Rightarrow> int \<Rightarrow> nat \<Rightarrow> nat \<Rightarrow> nat \<Rightarrow> int list" where
  "course_values pn tp n idx k = map (\<lambda>i. course_progress pn tp i n) [idx..<idx + k]"

text \<open>The event's counterpart of \<open>sess_shape\<close>, the slots an event occupies, and room
  exclusivity: two events with different identifiers in one room occupy disjoint slots.\<close>

definition ev_shape :: "event \<Rightarrow> string \<times> string \<times> int \<times> int \<times> string \<times> int" where
  "ev_shape e = (baseCourseCode e, ev_program e, year e, block e, room_type e, duration e)"

definition slots :: "event \<Rightarrow> int set" where
  "slots e = {start_slot e..<start_slot e + duration e}"

definition room_exclusive :: "event list \<Rightarrow> bool" where
  "room_exclusive evs =
     (\<forall>e1 \<in> set evs. \<forall>e2 \<in> set evs.
        schedule_id e1 \<noteq> schedule_id e2 \<and> room_type e1 = room_type e2 \<and> room_idx e1 = room_idx e2
          \<longrightarrow> slots e1 \<inter> slots e2 = {})"

text \<open>The fields that stay as \<^verbatim>\<open>load_data\<close> left them, and the effect of a failed
  attempt: some progress writes of the phase, identifiers used up, perhaps a solver call.\<close>

definition catalog_of ::
    "scheduler \<Rightarrow> string option \<times> (SchedulingPhase \<times> course) list \<times> (string \<Rightarrow> string list option) \<times>
       string list \<times> int \<times> int \<times> int list \<times> string set" where
  "catalog_of st = (process_id st, all_courses st, rooms st, days st, inc_day st, total_inc st,
     lab_starts st, courses_with_both st)"

definition retried :: "int \<Rightarrow> int \<Rightarrow> nat \<Rightarrow> scheduler \<Rightarrow> scheduler \<Rightarrow> bool" where
  "retried pn tp n st st' =
     (\<exists>k nid sc. k \<le> n \<and> next_schedule_id st \<le> nid \<and>
        st' = (wrote st (written (process_id st) (course_values pn tp n 0 k)))
                \<lparr>next_schedule_id := nid, solver_calls := sc\<rparr>)"

text \<open>What extraction guarantees of each event: its room type is a key of the room catalog,
  its day is a day of the catalog, and its session word follows its room type.\<close>

definition event_ok :: "scheduler \<Rightarrow> event \<Rightarrow> bool" where
  "event_ok st e =
     (rooms st (room_type e) \<noteq> None \<and> day e \<in> set (days st) \<and>
      session e = (if room_type e = ''lecture'' then ''Lecture'' else ''Laboratory''))"

text \<open>Meetings of one kind that the schedule holds for a block of a course, the shapes
  that belong to that block, and the key that tells courses apart.\<close>

definition meeting_count :: "event list \<Rightarrow> course \<Rightarrow> int \<Rightarrow> string \<Rightarrow> nat" where
  "meeting_count evs c b kind =
     length (filter (\<lambda>e. baseCourseCode e = courseCode c \<and> ev_program e = program c \<and>
                        year e = yearLevel c \<and> block e = 65 + b \<and> session e = kind) evs)"

definition shape_of :: "course \<Rightarrow> int \<Rightarrow> bool \<Rightarrow> string \<times> string \<times> int \<times> int \<times> string \<times> int \<Rightarrow> bool" where
  "shape_of c b lec sh =
     (case sh of (code, prog, yr, blk, ty, d) \<Rightarrow>
        code = courseCode c \<and> prog = program c \<and> yr = yearLevel c \<and> blk = 65 + b \<and>
        (ty = ''lecture'') = lec)"

definition course_key :: "course \<Rightarrow> string \<times> string \<times> int" where
  "course_key c = (courseCode c, program c, yearLevel c)"

section \<open>Properties of the course partitioner\<close>

lemma assign_phase_P1:
  "0 \<le> unitsLab c \<Longrightarrow> assign_phase c = PHASE_1_FLEXIBLE \<longleftrightarrow> yearLevel c \<le> 1 \<and> unitsLab c = 0"
  by (auto simp: assign_phase_def Let_def)

lemma assign_phase_P2:
  "0 \<le> unitsLab c \<Longrightarrow> assign_phase c = PHASE_2_REGULAR \<longleftrightarrow>
     (2 \<le> yearLevel c \<and> yearLevel c < 4 \<and> unitsLab c > 0) \<or> (unitsLab c = 0 \<and> yearLevel c \<ge> 2)"
  by (auto simp: assign_phase_def Let_def)

lemma assign_phase_P3:
  "0 \<le> unitsLab c \<Longrightarrow> assign_phase c = PHASE_3_CRITICAL \<longleftrightarrow>
     \<not> (yearLevel c \<le> 1 \<and> unitsLab c = 0) \<and>
     \<not> ((2 \<le> yearLevel c \<and> yearLevel c < 4 \<and> unitsLab c > 0) \<or> (unitsLab c = 0 \<and> yearLevel c \<ge> 2))"
  by (auto simp: assign_phase_def Let_def)

lemma partition_fst:
  "fst (prioritize_and_partition_courses courses st) =
     map (\<lambda>x. (fst x, snd (snd x)))
       (sort_key sort_rank (map (\<lambda>c. (assign_phase c, priority_score c, c)) courses))"
  by (simp add: prioritize_and_partition_courses_def Let_def case_prod_beta)

lemma partition_mset:
  "mset (fst (prioritize_and_partition_courses courses st)) = mset (map (\<lambda>c. (assign_phase c, c)) courses)"
  by (simp add: partition_fst image_mset.compositionality comp_def)

lemma partition_courses_mset:
  "mset (map snd (fst (prioritize_and_partition_courses courses st))) = mset courses"
proof -
  have "mset (map snd (fst (prioritize_and_partition_courses courses st))) =
      image_mset snd (mset (fst (prioritize_and_partition_courses courses st)))" by simp
  also have "\<dots> = mset courses"
    unfolding partition_mset by (simp add: image_mset.compositionality comp_def)
  finally show ?thesis .
qed

lemma partition_sorted:
  "sorted_wrt (\<lambda>x y. sort_rank (fst x, priority_score (snd x), snd x) \<le>
                      sort_rank (fst y, priority_score (snd y), snd y))
     (fst (prioritize_and_partition_courses courses st))"
proof -
  let ?scored = "map (\<lambda>c. (assign_phase c, priority_score c, c)) courses"
  have "sorted (map sort_rank (sort_key sort_rank ?scored))" by simp
  then have "sorted_wrt (\<lambda>x y. sort_rank x \<le> sort_rank y) (sort_key sort_rank ?scored)"
    by (simp add: sorted_map)
  then have "sorted_wrt (\<lambda>x y. sort_rank (fst x, priority_score (snd (snd x)), snd (snd x)) \<le>
                              sort_rank (fst y, priority_score (snd (snd y)), snd (snd y)))
      (sort_key sort_rank ?scored)"
  proof (rule sorted_wrt_mono_rel[rotated])
    fix x y assume "x \<in> set (sort_key sort_rank ?scored)" "y \<in> set (sort_key sort_rank ?scored)"
      and le: "sort_rank x \<le> sort_rank y"
    then obtain c d where "x = (assign_phase c, priority_score c, c)" "y = (assign_phase d, priority_score d, d)"
      by auto
    with le show "sort_rank (fst x, priority_score (snd (snd x)), snd (snd x)) \<le>
                  sort_rank (fst y, priority_score (snd (snd y)), snd (snd y))"
      by simp
  qed
  then show ?thesis by (simp add: partition_fst sorted_wrt_map)
qed

lemma phase_value_number: "phase_value p < phase_value q \<longleftrightarrow> phase_number p < phase_number q"
  by (cases p; cases q) (simp_all add: phase_number_def)

lemma phase_value_inj: "phase_value p = phase_value q \<longleftrightarrow> p = q"
  by (cases p; cases q) simp_all

text \<open>
  Claim C5. On courses whose lab units are not negative, the partitioner returns every course
  once; a course is in phase \<open>PHASE_1_FLEXIBLE\<close> exactly when its year level is at most 1 and it
  has no lab unit, in \<open>PHASE_2_REGULAR\<close> exactly when it is a lab course of year 2 or 3 or a
  course without lab of year 2 or more, in \<open>PHASE_3_CRITICAL\<close> otherwise; and of two pairs
  returned, the earlier has the smaller phase number, or the same phase and a priority score
  \<open>year_level \<cdot> 1000 + (units_lecture + 2 \<cdot> units_lab) \<cdot> 100 + units_lab \<cdot> 50 + blocks \<cdot> 10\<close>
  that is at least the later one's.
\<close>

theorem partition_spec:
  assumes "\<forall>c \<in> set courses. 0 \<le> unitsLab c"
  shows "mset (map snd (fst (prioritize_and_partition_courses courses st))) = mset courses \<and>
    (\<forall>(p, c) \<in> set (fst (prioritize_and_partition_courses courses st)).
       (p = PHASE_1_FLEXIBLE \<longleftrightarrow> yearLevel c \<le> 1 \<and> unitsLab c = 0) \<and>
       (p = PHASE_2_REGULAR \<longleftrightarrow>
          (2 \<le> yearLevel c \<and> yearLevel c < 4 \<and> unitsLab c > 0) \<or> (unitsLab c = 0 \<and> yearLevel c \<ge> 2)) \<and>
       (p = PHASE_3_CRITICAL \<longleftrightarrow>
          \<not> (yearLevel c \<le> 1 \<and> unitsLab c = 0) \<and>
          \<not> ((2 \<le> yearLevel c \<and> yearLevel c < 4 \<and> unitsLab c > 0) \<or> (unitsLab c = 0 \<and> yearLevel c \<ge> 2)))) \<and>
    sorted_wrt (\<lambda>(p, c) (q, d).
        phase_number p < phase_number q \<or>
        (p = q \<and>
         yearLevel c * 1000 + (unitsLecture c + 2 * unitsLab c) * 100 + unitsLab c * 50 + blocks c * 10 \<ge>
         yearLevel d * 1000 + (unitsLecture d + 2 * unitsLab d) * 100 + unitsLab d * 50 + blocks d * 10))
      (fst (prioritize_and_partition_courses courses st))"
proof (intro conjI ballI)
  show "mset (map snd (fst (prioritize_and_partition_courses courses st))) = mset courses"
    by (rule partition_courses_mset)
next
  fix x assume "x \<in> set (fst (prioritize_and_partition_courses courses st))"
  then have "x \<in># mset (map (\<lambda>c. (assign_phase c, c)) courses)"
    using partition_mset[of courses st] by (metis set_mset_mset)
  then obtain c where c: "c \<in> set courses" "x = (assign_phase c, c)" by auto
  with assms have "0 \<le> unitsLab c" by blast
  then show "case x of (p, c) \<Rightarrow>
       (p = PHASE_1_FLEXIBLE \<longleftrightarrow> yearLevel c \<le> 1 \<and> unitsLab c = 0) \<and>
       (p = PHASE_2_REGULAR \<longleftrightarrow>
          (2 \<le> yearLevel c \<and> yearLevel c < 4 \<and> unitsLab c > 0) \<or> (unitsLab c = 0 \<and> yearLevel c \<ge> 2)) \<and>
       (p = PHASE_3_CRITICAL \<longleftrightarrow>
          \<not> (yearLevel c \<le> 1 \<and> unitsLab c = 0) \<and>
          \<not> ((2 \<le> yearLevel c \<and> yearLevel c < 4 \<and> unitsLab c > 0) \<or> (unitsLab c = 0 \<and> yearLevel c \<ge> 2)))"
    using c(2) assign_phase_P1[of c] assign_phase_P2[of c] assign_phase_P3[of c] by simp
next
  show "sorted_wrt (\<lambda>(p, c) (q, d).
        phase_number p < phase_number q \<or>
        (p = q \<and>
         yearLevel c * 1000 + (unitsLecture c + 2 * unitsLab c) * 100 + unitsLab c * 50 + blocks c * 10 \<ge>
         yearLevel d * 1000 + (unitsLecture d + 2 * unitsLab d) * 100 + unitsLab d * 50 + blocks d * 10))
      (fst (prioritize_and_partition_courses courses st))"
  proof (rule sorted_wrt_mono_rel[OF _ partition_sorted])
    fix x y :: "SchedulingPhase \<times> course"
    assume "sort_rank (fst x, priority_score (snd x), snd x) \<le> sort_rank (fst y, priority_score (snd y), snd y)"
    then have "phase_value (fst x) < phase_value (fst y) \<or>
        (phase_value (fst x) = phase_value (fst y) \<and> priority_score (snd y) \<le> priority_score (snd x))"
      by (auto simp: sort_rank_def less_eq_prod_def)
    then show "(case x of (p, c) \<Rightarrow> \<lambda>(q, d).
        phase_number p < phase_number q \<or>
        (p = q \<and>
         yearLevel c * 1000 + (unitsLecture c + 2 * unitsLab c) * 100 + unitsLab c * 50 + blocks c * 10 \<ge>
         yearLevel d * 1000 + (unitsLecture d + 2 * unitsLab d) * 100 + unitsLab d * 50 + blocks d * 10)) y"
      by (cases x; cases y) (auto simp: phase_value_number phase_value_inj priority_score_def)
  qed
qed

text \<open>Four courses, two of them in the first phase: MA101 scores 1310 and FR101 scores 1110,
  so MA101 is moved in front of FR101, and both in front of the later phases.\<close>

theorem partition_spec_witness:
  "0 \<le> unitsLab c_en400 \<and> 0 \<le> unitsLab c_fr101 \<and> 0 \<le> unitsLab c_cs150 \<and> 0 \<le> unitsLab c_ma101 \<and>
   fst (prioritize_and_partition_courses [c_en400, c_fr101, c_cs150, c_ma101] (init None)) =
     [(PHASE_1_FLEXIBLE, c_ma101), (PHASE_1_FLEXIBLE, c_fr101), (PHASE_2_REGULAR, c_cs150),
      (PHASE_3_CRITICAL, c_en400)] \<and>
   yearLevel c_ma101 * 1000 + (unitsLecture c_ma101 + 2 * unitsLab c_ma101) * 100 +
     unitsLab c_ma101 * 50 + blocks c_ma101 * 10 = 1310 \<and>
   yearLevel c_fr101 * 1000 + (unitsLecture c_fr101 + 2 * unitsLab c_fr101) * 100 +
     unitsLab c_fr101 * 50 + blocks c_fr101 * 10 = 1110 \<and>
   sorted_wrt (\<lambda>(p, c) (q, d).
        phase_number p < phase_number q \<or>
        (p = q \<and>
         yearLevel c * 1000 + (unitsLecture c + 2 * unitsLab c) * 100 + unitsLab c * 50 + blocks c * 10 \<ge>
         yearLevel d * 1000 + (unitsLecture d + 2 * unitsLab d) * 100 + unitsLab d * 50 + blocks d * 10))
     [(PHASE_1_FLEXIBLE, c_ma101), (PHASE_1_FLEXIBLE, c_fr101), (PHASE_2_REGULAR, c_cs150),
      (PHASE_3_CRITICAL, c_en400)]"
proof -
  have h: "\<forall>c \<in> set [c_en400, c_fr101, c_cs150, c_ma101]. 0 \<le> unitsLab c"
    by (simp add: c_fr101_def c_cs150_def c_en400_def c_ma101_def)
  have e: "fst (prioritize_and_partition_courses [c_en400, c_fr101, c_cs150, c_ma101] (init None)) =
     [(PHASE_1_FLEXIBLE, c_ma101), (PHASE_1_FLEXIBLE, c_fr101), (PHASE_2_REGULAR, c_cs150),
      (PHASE_3_CRITICAL, c_en400)]"
    by (simp add: prioritize_and_partition_courses_def c_fr101_def c_cs150_def c_en400_def c_ma101_def
      assign_phase_def priority_score_def sort_rank_def less_eq_prod_def Let_def)
  have s: "yearLevel c_ma101 * 1000 + (unitsLecture c_ma101 + 2 * unitsLab c_ma101) * 100 +
     unitsLab c_ma101 * 50 + blocks c_ma101 * 10 = 1310"
    "yearLevel c_fr101 * 1000 + (unitsLecture c_fr101 + 2 * unitsLab c_fr101) * 100 +
     unitsLab c_fr101 * 50 + blocks c_fr101 * 10 = 1110"
    by (simp_all add: c_ma101_def c_fr101_def)
  from partition_spec[OF h, of "init None"]
  have "sorted_wrt (\<lambda>(p, c) (q, d).
        phase_number p < phase_number q \<or>
        (p = q \<and>
         yearLevel c * 1000 + (unitsLecture c + 2 * unitsLab c) * 100 + unitsLab c * 50 + blocks c * 10 \<ge>
         yearLevel d * 1000 + (unitsLecture d + 2 * unitsLab d) * 100 + unitsLab d * 50 + blocks d * 10))
     (fst (prioritize_and_partition_courses [c_en400, c_fr101, c_cs150, c_ma101] (init None)))"
    by (elim conjE)
  then have so: "sorted_wrt (\<lambda>(p, c) (q, d).
        phase_number p < phase_number q \<or>
        (p = q \<and>
         yearLevel c * 1000 + (unitsLecture c + 2 * unitsLab c) * 100 + unitsLab c * 50 + blocks c * 10 \<ge>
         yearLevel d * 1000 + (unitsLecture d + 2 * unitsLab d) * 100 + unitsLab d * 50 + blocks d * 10))
     [(PHASE_1_FLEXIBLE, c_ma101), (PHASE_1_FLEXIBLE, c_fr101), (PHASE_2_REGULAR, c_cs150),
      (PHASE_3_CRITICAL, c_en400)]"
    unfolding e .
  have u: "0 \<le> unitsLab c_en400" "0 \<le> unitsLab c_fr101" "0 \<le> unitsLab c_cs150" "0 \<le> unitsLab c_ma101"
    by (simp_all add: c_fr101_def c_cs150_def c_en400_def c_ma101_def)
  show ?thesis by (intro conjI u e s so)
qed

section \<open>Properties of the occupancy ledger\<close>

lemma scan_starts_take:
  "length acc < nat (max cap 1) \<Longrightarrow>
   scan_starts occ d cap xs acc =
     acc @ take (nat (max cap 1) - length acc) (filter (slot_free occ d) xs)"
proof (induction xs arbitrary: acc)
  case Nil
  then show ?case by simp
next
  case (Cons x xs)
  show ?case
  proof (cases "slot_free occ d x")
    case False
    with Cons show ?thesis by simp
  next
    case True
    show ?thesis
    proof (cases "int (length (acc @ [x])) \<ge> cap")
      case full: True
      then have "nat (max cap 1) - length acc = 1" using Cons.prems by auto
      with True full show ?thesis by (simp add: Let_def)
    next
      case notfull: False
      then have lt: "length (acc @ [x]) < nat (max cap 1)" by auto
      have "nat (max cap 1) - length acc = Suc (nat (max cap 1) - length (acc @ [x]))"
        using lt by auto
      with True notfull Cons.IH[OF lt] show ?thesis by (simp add: Let_def)
    qed
  qed
qed

lemma slot_free_iff: "slot_free occ d s \<longleftrightarrow> {s..<s + d} \<inter> occ = {}"
  by (auto simp: slot_free_def py_range_def)

lemma lab_blocks_sorted:
  "sorted_wrt (<) (concat (map (\<lambda>d. py_range (d * c) (d * c + c - 2)) (py_range 0 (int n))))"
proof (induction n)
  case 0
  then show ?case by (simp add: py_range_def)
next
  case (Suc n)
  let ?f = "\<lambda>d. py_range (d * c) (d * c + c - 2)"
  have "py_range 0 (int (Suc n)) = py_range 0 (int n) @ [int n]"
    by (simp add: py_range_def upto_rec2)
  then have split: "concat (map ?f (py_range 0 (int (Suc n)))) =
      concat (map ?f (py_range 0 (int n))) @ ?f (int n)"
    by (simp del: of_nat_Suc)
  have "x < y" if x: "x \<in> set (py_range (d * c) (d * c + c - 2))" and d: "d \<in> set (py_range 0 (int n))"
    and y: "y \<in> set (py_range (int n * c) (int n * c + c - 2))" for x y d
  proof -
    from x have c: "c \<ge> 3" and xb: "x \<le> d * c + c - 3" by (auto simp: py_range_def)
    from d have "d + 1 \<le> int n" by (auto simp: py_range_def)
    then have "(d + 1) * c \<le> int n * c" using c by (intro mult_right_mono) auto
    moreover from y have "int n * c \<le> y" by (auto simp: py_range_def)
    ultimately show ?thesis using xb by (simp add: algebra_simps)
  qed
  moreover have "sorted_wrt (<) (py_range a b)" for a b :: int
    by (simp add: py_range_def sorted_wrt_upto)
  ultimately show ?case using Suc unfolding split
    by (auto simp: sorted_wrt_append)
qed

lemma discretized_setup: "discretized (setup_time_parameters ts st)"
  by (simp add: discretized_def setup_time_parameters_def Let_def)

lemma search_space_sorted:
  "discretized st \<Longrightarrow> sorted_wrt (<) (search_space st d is_lab)"
  by (simp add: search_space_def discretized_def lab_blocks_sorted) (simp add: py_range_def sorted_wrt_upto)

lemma available_eq:
  "get_available_time_slots st k d is_lab cap =
     take (nat (max cap 1)) (filter (slot_free (section_occupied st k) d) (search_space st d is_lab))"
  by (simp add: get_available_time_slots_def scan_starts_take)

text \<open>
  Claim C6. After time discretization and for a cap of at least 1 (the scheduler always asks
  with a cap of 1000), \<open>get_available_time_slots\<close> returns the starts \<open>s\<close> of the search space
  (\<open>lab_starts\<close> for a lab, else \<open>0 .. total_inc - duration\<close>) whose slots \<open>s ..< s + duration\<close>
  avoid the section's occupied set, in ascending order, cut to the first \<open>cap\<close> of them. When
  fewer than \<open>cap\<close> such starts exist, all of them are returned.
\<close>

theorem available_section_starts_spec:
  assumes "discretized st" and "1 \<le> cap"
  shows "get_available_time_slots st k d is_lab cap =
       take (nat cap)
         (filter (\<lambda>s. {s..<s + d} \<inter> section_occupied st k = {})
            (if is_lab then lab_starts st else [0..total_inc st - d])) \<and>
     sorted_wrt (<) (get_available_time_slots st k d is_lab cap) \<and>
     (int (length (filter (\<lambda>s. {s..<s + d} \<inter> section_occupied st k = {})
            (if is_lab then lab_starts st else [0..total_inc st - d]))) < cap \<longrightarrow>
      get_available_time_slots st k d is_lab cap =
        filter (\<lambda>s. {s..<s + d} \<inter> section_occupied st k = {})
          (if is_lab then lab_starts st else [0..total_inc st - d]))"
proof -
  have sp: "search_space st d is_lab = (if is_lab then lab_starts st else [0..total_inc st - d])"
    by (simp add: search_space_def py_range_def)
  have fr: "slot_free (section_occupied st k) d = (\<lambda>s. {s..<s + d} \<inter> section_occupied st k = {})"
    by (rule ext) (rule slot_free_iff)
  have mx: "max cap 1 = cap" using assms(2) by simp
  have eq: "get_available_time_slots st k d is_lab cap =
       take (nat cap)
         (filter (\<lambda>s. {s..<s + d} \<inter> section_occupied st k = {})
            (if is_lab then lab_starts st else [0..total_inc st - d]))"
    unfolding available_eq fr sp mx ..
  have "sorted_wrt (<) (filter (slot_free (section_occupied st k) d) (search_space st d is_lab))"
    using search_space_sorted[OF assms(1)] by (rule sorted_wrt_filter)
  then have so: "sorted_wrt (<) (get_available_time_slots st k d is_lab cap)"
    unfolding available_eq by (rule sorted_wrt_take)
  show ?thesis using eq so by simp
qed

lemma st_two_days_discretized: "discretized st_two_days"
  by (simp add: st_two_days_def discretized_def setup_time_parameters_def Let_def)

text \<open>Section \<^verbatim>\<open>('BSCS', 1, 'A')\<close> has the free lecture starts 0, 4, 5 and 6: a cap of 2
  returns the first two of them, a cap of 1000 all four.\<close>

theorem available_section_starts_witness:
  "discretized st_two_days \<and>
   filter (\<lambda>s. {s..<s + 2} \<inter> section_occupied st_two_days (''BSCS'', 1, 65) = {})
     [0..total_inc st_two_days - 2] = [0, 4, 5, 6] \<and>
   get_available_time_slots st_two_days (''BSCS'', 1, 65) 2 False 2 = [0, 4] \<and>
   get_available_time_slots st_two_days (''BSCS'', 1, 65) 2 False 2 =
     take (nat 2)
       (filter (\<lambda>s. {s..<s + 2} \<inter> section_occupied st_two_days (''BSCS'', 1, 65) = {})
          [0..total_inc st_two_days - 2]) \<and>
   sorted_wrt (<) (get_available_time_slots st_two_days (''BSCS'', 1, 65) 2 False 2) \<and>
   get_available_time_slots st_two_days (''BSCS'', 1, 65) 2 False 1000 = [0, 4, 5, 6]"
proof -
  have f: "filter (\<lambda>s. {s..<s + 2} \<inter> section_occupied st_two_days (''BSCS'', 1, 65) = {})
     [0..total_inc st_two_days - 2] = [0, 4, 5, 6]"
    by (simp add: st_two_days_def setup_time_parameters_def init_def Let_def upto.simps)
  have e: "get_available_time_slots st_two_days (''BSCS'', 1, 65) 2 False 2 = [0, 4]"
    by (simp add: st_two_days_def setup_time_parameters_def init_def get_available_time_slots_def
      search_space_def py_range_def slot_free_def Let_def upto.simps)
  have le: "(1::int) \<le> 2" "(1::int) \<le> 1000" by simp_all
  note t = available_section_starts_spec[OF st_two_days_discretized le(1), of "(''BSCS'', 1, 65)" 2 False]
  from t have a: "get_available_time_slots st_two_days (''BSCS'', 1, 65) 2 False 2 =
     take (nat 2)
       (filter (\<lambda>s. {s..<s + 2} \<inter> section_occupied st_two_days (''BSCS'', 1, 65) = {})
          [0..total_inc st_two_days - 2])"
    by simp
  from t have b: "sorted_wrt (<) (get_available_time_slots st_two_days (''BSCS'', 1, 65) 2 False 2)"
    by (elim conjE)
  note u = available_section_starts_spec[OF st_two_days_discretized le(2), of "(''BSCS'', 1, 65)" 2 False]
  from u have "int (length (filter (\<lambda>s. {s..<s + 2} \<inter> section_occupied st_two_days (''BSCS'', 1, 65) = {})
     [0..total_inc st_two_days - 2])) < 1000 \<longrightarrow>
     get_available_time_slots st_two_days (''BSCS'', 1, 65) 2 False 1000 =
       filter (\<lambda>s. {s..<s + 2} \<inter> section_occupied st_two_days (''BSCS'', 1, 65) = {})
         [0..total_inc st_two_days - 2]"
    by simp
  then have c: "get_available_time_slots st_two_days (''BSCS'', 1, 65) 2 False 1000 = [0, 4, 5, 6]"
    unfolding f by simp
  show ?thesis by (intro conjI st_two_days_discretized f e a b c)
qed

section \<open>What a build guarantees\<close>

lemma grows_refl [simp]: "grows b b"
  by (simp add: grows_def)

lemma grows_trans: "grows b b1 \<Longrightarrow> grows b1 b2 \<Longrightarrow> grows b b2"
  by (auto simp: grows_def)

lemma posted_grows: "posted rms b s \<Longrightarrow> grows b b' \<Longrightarrow> posted rms b' s"
  unfolding posted_def grows_def by blast

lemma and_then_Done:
  "and_then m f = (Done y, s') \<longleftrightarrow> (\<exists>x s1. m = (Done x, s1) \<and> f x s1 = (Done y, s'))"
  by (cases m; cases "fst m") (auto simp: and_then_def)

lemma upt_append_upt: "a \<le> b \<Longrightarrow> b \<le> c \<Longrightarrow> [a..<b] @ [b..<c] = [a..<(c::nat)]"
  by (metis le_Suc_ex upt_add_eq_append)

lemma new_session_grows:
  "new_session st code prog yr blk ty dur ttl sk dv nr b = (s, b') \<Longrightarrow> grows b b'"
  by (auto simp: new_session_def Let_def grows_def)

lemma new_session_id:
  "new_session st code prog yr blk ty dur ttl sk dv nr b = (s, b') \<Longrightarrow>
     s_id s = next_id b \<and> next_id b' = Suc (next_id b) \<and> sess_shape s = (code, prog, yr, blk, ty, dur)"
  by (auto simp: new_session_def Let_def sess_shape_def)

lemma new_session_posted:
  "new_session st code prog yr blk ty dur ttl sk dv (int (length rs)) b = (s, b') \<Longrightarrow>
     rooms st ty = Some rs \<Longrightarrow> posted (rooms st) b' s"
  by (auto simp: new_session_def Let_def posted_def)

lemma session_loop_Suc:
  "session_loop st code prog yr blk ty dur ttl sk avail nr (Suc n) sessions b =
     (if avail = [] then (Fail, b)
      else session_loop st code prog yr blk ty dur ttl sk avail nr n
             (sessions @ [fst (new_session st code prog yr blk ty dur ttl sk (take (min (length avail) 200) avail) nr b)])
             (snd (new_session st code prog yr blk ty dur ttl sk (take (min (length avail) 200) avail) nr b)))"
  by (cases avail) (simp_all add: Let_def case_prod_beta)

declare session_loop.simps(2) [simp del]

lemma session_loop_Done:
  assumes "session_loop st code prog yr blk ty dur ttl sk avail (int (length rs)) n sessions b = (Done ss, b')"
    and "rooms st ty = Some rs"
  shows "\<exists>new. ss = sessions @ new \<and> map s_id new = [next_id b..<next_id b'] \<and> length new = n \<and>
     (\<forall>s \<in> set new. posted (rooms st) b' s \<and> sess_shape s = (code, prog, yr, blk, ty, dur)) \<and> grows b b'"
  using assms
proof (induction n arbitrary: sessions b)
  case 0
  then show ?case by simp
next
  case (Suc n)
  let ?dv = "take (min (length avail) 200) avail"
  from Suc.prems(1) have ne: "avail \<noteq> []" by (auto simp: session_loop_Suc split: if_splits)
  obtain s b1 where ns: "new_session st code prog yr blk ty dur ttl sk ?dv (int (length rs)) b = (s, b1)"
    by (cases "new_session st code prog yr blk ty dur ttl sk ?dv (int (length rs)) b")
  from Suc.prems(1) ne ns
  have rec: "session_loop st code prog yr blk ty dur ttl sk avail (int (length rs)) n (sessions @ [s]) b1 = (Done ss, b')"
    by (simp add: session_loop_Suc)
  from Suc.IH[OF rec Suc.prems(2)] obtain new where
    new: "ss = (sessions @ [s]) @ new" "map s_id new = [next_id b1..<next_id b']" "length new = n"
      "\<forall>x \<in> set new. posted (rooms st) b' x \<and> sess_shape x = (code, prog, yr, blk, ty, dur)" "grows b1 b'"
    by blast
  from new_session_id[OF ns] have ids: "s_id s = next_id b" "next_id b1 = Suc (next_id b)"
    "sess_shape s = (code, prog, yr, blk, ty, dur)" by auto
  from new(5) have le: "next_id b1 \<le> next_id b'" by (simp add: grows_def)
  have "map s_id (s # new) = [next_id b..<next_id b']"
    using new(2) ids le by (simp add: upt_conv_Cons)
  moreover have "posted (rooms st) b' s"
    using new_session_posted[OF ns Suc.prems(2)] new(5) by (rule posted_grows)
  moreover have "grows b b'" using new_session_grows[OF ns] new(5) by (rule grows_trans)
  ultimately show ?case using new ids by (intro exI[of _ "s # new"]) auto
qed

lemma session_loop_next_id:
  "session_loop st code prog yr blk ty dur ttl sk avail nr n sessions b = (r, b') \<Longrightarrow> next_id b \<le> next_id b'"
proof (induction n arbitrary: sessions b)
  case 0
  then show ?case by simp
next
  case (Suc n)
  show ?case
  proof (cases "avail = []")
    case True
    with Suc.prems show ?thesis by (simp add: session_loop_Suc)
  next
    case False
    obtain s b1 where ns: "new_session st code prog yr blk ty dur ttl sk (take (min (length avail) 200) avail) nr b = (s, b1)"
      by (cases "new_session st code prog yr blk ty dur ttl sk (take (min (length avail) 200) avail) nr b")
    with Suc.prems False
    have "session_loop st code prog yr blk ty dur ttl sk avail nr n (sessions @ [s]) b1 = (r, b')"
      by (simp add: session_loop_Suc)
    from Suc.IH[OF this] new_session_id[OF ns] show ?thesis by simp
  qed
qed

lemma and_then_next_id:
  assumes "and_then m f = (r, s')"
    and "\<And>x s1. m = (x, s1) \<Longrightarrow> next_id s \<le> next_id s1"
    and "\<And>x s1 r. f x s1 = (r, s') \<Longrightarrow> next_id s1 \<le> next_id s'"
  shows "next_id s \<le> next_id s'"
proof (cases m)
  case (Pair o1 s1)
  with assms(2) have le: "next_id s \<le> next_id s1" by blast
  show ?thesis
  proof (cases o1)
    case (Done x)
    with Pair assms(1) have "f x s1 = (r, s')" by (simp add: and_then_def)
    from assms(3)[OF this] le show ?thesis by simp
  qed (use Pair assms(1) le in \<open>auto simp: and_then_def\<close>)
qed

lemma create_session_type_next_id:
  assumes "create_session_type st code prog yr blk ty units dur ttl sk is_lab b = (r, b')"
  shows "next_id b \<le> next_id b'"
proof -
  let ?avail = "get_available_time_slots st sk dur is_lab 1000"
  let ?starts = "if ?avail = [] then (if is_lab then lab_starts st else py_range 0 (total_inc st - dur + 1)) else ?avail"
  show ?thesis
  proof (cases "?starts = []")
    case True
    with assms show ?thesis by (simp add: create_session_type_def Let_def)
  next
    case ne: False
    show ?thesis
    proof (cases "rooms st ty")
      case None
      with assms ne show ?thesis by (simp add: create_session_type_def Let_def)
    next
      case (Some rs)
      with assms ne have at: "and_then
               (session_loop st code prog yr blk ty dur ttl sk ?starts (int (length rs)) (nat units) [] b)
               (\<lambda>sessions b'.
                  (Done sessions,
                   if length sessions > 1
                   then b'\<lparr>model := model b' @ add_block_day_constraints st (map s_id sessions) is_lab\<rparr>
                   else b')) = (r, b')"
        by (simp add: create_session_type_def Let_def)
      show ?thesis
        by (rule and_then_next_id[OF at]) (auto dest: session_loop_next_id split: if_splits)
    qed
  qed
qed

lemma create_session_type_Done:
  assumes "create_session_type st code prog yr blk ty units dur ttl sk is_lab b = (Done ss, b')"
  shows "map s_id ss = [next_id b..<next_id b'] \<and> length ss = nat units \<and>
     (\<forall>s \<in> set ss. posted (rooms st) b' s \<and> sess_shape s = (code, prog, yr, blk, ty, dur)) \<and> grows b b'"
proof -
  let ?avail = "get_available_time_slots st sk dur is_lab 1000"
  let ?starts = "if ?avail = [] then (if is_lab then lab_starts st else py_range 0 (total_inc st - dur + 1)) else ?avail"
  from assms have ne: "?starts \<noteq> []"
    by (auto simp: create_session_type_def Let_def split: if_splits)
  from assms ne obtain rs where rs: "rooms st ty = Some rs"
    by (cases "rooms st ty") (auto simp: create_session_type_def Let_def)
  from assms ne rs obtain b1 where
    loop: "session_loop st code prog yr blk ty dur ttl sk ?starts (int (length rs)) (nat units) [] b = (Done ss, b1)"
    and b': "b' = (if length ss > 1
                   then b1\<lparr>model := model b1 @ add_block_day_constraints st (map s_id ss) is_lab\<rparr>
                   else b1)"
    by (auto simp: create_session_type_def Let_def and_then_Done)
  from session_loop_Done[OF loop rs] have
    new: "map s_id ss = [next_id b..<next_id b1]" "length ss = nat units"
      "\<forall>s \<in> set ss. posted (rooms st) b1 s \<and> sess_shape s = (code, prog, yr, blk, ty, dur)" "grows b b1"
    by auto
  have g: "grows b1 b'" and n: "next_id b' = next_id b1" using b' by (auto simp: grows_def)
  show ?thesis using new g n by (auto intro: posted_grows grows_trans)
qed


lemma map_const_replicate: "\<forall>x \<in> set xs. f x = v \<Longrightarrow> map f xs = replicate (length xs) v"
  by (induction xs) auto

lemma optional_sessions_Done:
  assumes "(if cond then create_session_type st code prog yr blk ty u dur ttl sk is_lab b else (Done [], b)) = (Done ss, b')"
    and "\<not> cond \<Longrightarrow> u \<le> 0"
  shows "map s_id ss = [next_id b..<next_id b'] \<and>
     map sess_shape ss = replicate (nat u) (code, prog, yr, blk, ty, dur) \<and>
     (\<forall>s \<in> set ss. posted (rooms st) b' s) \<and> grows b b'"
proof (cases cond)
  case True
  with assms(1) have "create_session_type st code prog yr blk ty u dur ttl sk is_lab b = (Done ss, b')" by simp
  from create_session_type_Done[OF this] have f: "map s_id ss = [next_id b..<next_id b']"
    "length ss = nat u" "\<forall>s \<in> set ss. posted (rooms st) b' s"
    "\<forall>s \<in> set ss. sess_shape s = (code, prog, yr, blk, ty, dur)" "grows b b'" by auto
  from map_const_replicate[OF f(4)] f(2)
  have "map sess_shape ss = replicate (nat u) (code, prog, yr, blk, ty, dur)" by simp
  with f show ?thesis by simp
next
  case False
  with assms show ?thesis by auto
qed

lemma optional_sessions_next_id:
  "(if cond then create_session_type st code prog yr blk ty u dur ttl sk is_lab b else (Done [], b)) = (r, b')
   \<Longrightarrow> next_id b \<le> next_id b'"
  by (auto split: if_splits dest: create_session_type_next_id)

lemma block_loop_Cons:
  "block_loop st c (bi # rest) all_sessions b =
     (if 65 + bi > 1114111 then (Raise ValueError, b)
      else
         and_then
           (if unitsLecture c > 0
            then create_session_type st (courseCode c) (program c) (yearLevel c) (65 + bi) ''lecture''
                   (unitsLecture c) 2 (title c) (program c, yearLevel c, 65 + bi) False b
            else (Done [], b))
           (\<lambda>lec b1.
              and_then
                (if unitsLab c > 0
                 then create_session_type st (courseCode c) (program c) (yearLevel c) (65 + bi) ''lab''
                        (unitsLab c * 2) 3 (title c) (program c, yearLevel c, 65 + bi) True b1
                 else (Done [], b1))
                (\<lambda>labs b2. block_loop st c rest (all_sessions @ lec @ labs) b2)))"
  by (simp add: Let_def)

declare block_loop.simps(2) [simp del]

lemma block_loop_Done:
  assumes "block_loop st c bis all_sessions b = (Done ss, b')"
  shows "\<exists>new. ss = all_sessions @ new \<and> map s_id new = [next_id b..<next_id b'] \<and>
     map sess_shape new = concat (map (block_shape c) bis) \<and>
     (\<forall>s \<in> set new. posted (rooms st) b' s) \<and> grows b b'"
  using assms
proof (induction bis arbitrary: all_sessions b)
  case Nil
  then show ?case by simp
next
  case (Cons bi rest)
  from Cons.prems have ok: "\<not> 65 + bi > 1114111" by (auto simp: block_loop_Cons split: if_splits)
  from Cons.prems ok obtain lec b1 labs b2 where
    lec: "(if unitsLecture c > 0
            then create_session_type st (courseCode c) (program c) (yearLevel c) (65 + bi) ''lecture''
                   (unitsLecture c) 2 (title c) (program c, yearLevel c, 65 + bi) False b
            else (Done [], b)) = (Done lec, b1)"
    and labs: "(if unitsLab c > 0
                 then create_session_type st (courseCode c) (program c) (yearLevel c) (65 + bi) ''lab''
                        (unitsLab c * 2) 3 (title c) (program c, yearLevel c, 65 + bi) True b1
                 else (Done [], b1)) = (Done labs, b2)"
    and rec: "block_loop st c rest (all_sessions @ lec @ labs) b2 = (Done ss, b')"
    unfolding block_loop_Cons by (simp add: and_then_Done) blast
  from optional_sessions_Done[OF lec] have L:
    "map s_id lec = [next_id b..<next_id b1]"
    "map sess_shape lec = replicate (nat (unitsLecture c)) (courseCode c, program c, yearLevel c, 65 + bi, ''lecture'', 2)"
    "\<forall>s \<in> set lec. posted (rooms st) b1 s" "grows b b1" by auto
  from optional_sessions_Done[OF labs] have B:
    "map s_id labs = [next_id b1..<next_id b2]"
    "map sess_shape labs = replicate (nat (unitsLab c * 2)) (courseCode c, program c, yearLevel c, 65 + bi, ''lab'', 3)"
    "\<forall>s \<in> set labs. posted (rooms st) b2 s" "grows b1 b2" by auto
  from Cons.IH[OF rec] obtain new where new:
    "ss = (all_sessions @ lec @ labs) @ new" "map s_id new = [next_id b2..<next_id b']"
    "map sess_shape new = concat (map (block_shape c) rest)"
    "\<forall>s \<in> set new. posted (rooms st) b' s" "grows b2 b'" by blast
  have le: "next_id b \<le> next_id b1" "next_id b1 \<le> next_id b2" "next_id b2 \<le> next_id b'"
    using L(4) B(4) new(5) by (auto simp: grows_def)
  have ids: "map s_id (lec @ labs @ new) = [next_id b..<next_id b']"
    using L(1) B(1) new(2) le by (simp add: upt_append_upt)
  have sh: "map sess_shape (lec @ labs @ new) = concat (map (block_shape c) (bi # rest))"
    using L(2) B(2) new(3) by (simp add: block_shape_def)
  have g2: "grows b1 b'" using B(4) new(5) by (rule grows_trans)
  have po: "\<forall>s \<in> set (lec @ labs @ new). posted (rooms st) b' s"
    using L(3) B(3) new(4) g2 new(5) by (auto intro: posted_grows)
  have "grows b b'" using L(4) g2 by (rule grows_trans)
  with ids sh po new(1) show ?case by (intro exI[of _ "lec @ labs @ new"]) simp
qed

lemma block_loop_next_id:
  "block_loop st c bis all_sessions b = (r, b') \<Longrightarrow> next_id b \<le> next_id b'"
proof (induction bis arbitrary: all_sessions b r)
  case Nil
  then show ?case by simp
next
  case (Cons bi rest)
  show ?case
  proof (cases "65 + bi > 1114111")
    case True
    with Cons.prems show ?thesis by (simp add: block_loop_Cons)
  next
    case False
    with Cons.prems have at: "and_then
           (if unitsLecture c > 0
            then create_session_type st (courseCode c) (program c) (yearLevel c) (65 + bi) ''lecture''
                   (unitsLecture c) 2 (title c) (program c, yearLevel c, 65 + bi) False b
            else (Done [], b))
           (\<lambda>lec b1.
              and_then
                (if unitsLab c > 0
                 then create_session_type st (courseCode c) (program c) (yearLevel c) (65 + bi) ''lab''
                        (unitsLab c * 2) 3 (title c) (program c, yearLevel c, 65 + bi) True b1
                 else (Done [], b1))
                (\<lambda>labs b2. block_loop st c rest (all_sessions @ lec @ labs) b2)) = (r, b')"
      by (simp add: block_loop_Cons)
    show ?thesis
    proof (rule and_then_next_id[OF at])
      fix x s1 assume "(if unitsLecture c > 0
            then create_session_type st (courseCode c) (program c) (yearLevel c) (65 + bi) ''lecture''
                   (unitsLecture c) 2 (title c) (program c, yearLevel c, 65 + bi) False b
            else (Done [], b)) = (x, s1)"
      then show "next_id b \<le> next_id s1" by (rule optional_sessions_next_id)
    next
      fix x s1 r' assume inner: "and_then
                (if unitsLab c > 0
                 then create_session_type st (courseCode c) (program c) (yearLevel c) (65 + bi) ''lab''
                        (unitsLab c * 2) 3 (title c) (program c, yearLevel c, 65 + bi) True s1
                 else (Done [], s1))
                (\<lambda>labs b2. block_loop st c rest (all_sessions @ x @ labs) b2) = (r', b')"
      show "next_id s1 \<le> next_id b'"
        by (rule and_then_next_id[OF inner]) (auto dest: optional_sessions_next_id Cons.IH)
    qed
  qed
qed

lemma create_course_sessions_Done:
  assumes "create_course_sessions st c b = (Done ss, b')"
  shows "map s_id ss = [next_id b..<next_id b'] \<and> map sess_shape ss = course_shape c \<and>
     (\<forall>s \<in> set ss. posted (rooms st) b' s) \<and> grows b b'"
  using block_loop_Done[OF assms[unfolded create_course_sessions_def]]
  by (auto simp: course_shape_def)

lemma create_course_sessions_next_id:
  "create_course_sessions st c b = (r, b') \<Longrightarrow> next_id b \<le> next_id b'"
  unfolding create_course_sessions_def by (rule block_loop_next_id)

section \<open>One build-and-solve attempt\<close>

lemma wrote_Nil [simp]: "wrote st [] = st"
  by (simp add: wrote_def)

lemma wrote_wrote [simp]: "wrote (wrote st xs) ys = wrote st (xs @ ys)"
  by (simp add: wrote_def)

lemma written_append: "written pid (xs @ ys) = written pid xs @ written pid ys"
  by (simp add: written_def)

lemma update_progress_wrote: "update_progress v st = wrote st (written (process_id st) [v])"
  by (simp add: update_progress_def wrote_def written_def)

lemma wrote_fields [simp]:
  "process_id (wrote st ws) = process_id st" "all_courses (wrote st ws) = all_courses st"
  "rooms (wrote st ws) = rooms st" "days (wrote st ws) = days st"
  "inc_day (wrote st ws) = inc_day st" "total_inc (wrote st ws) = total_inc st"
  "lab_starts (wrote st ws) = lab_starts st" "global_schedule (wrote st ws) = global_schedule st"
  "occupied_slots (wrote st ws) = occupied_slots st" "section_occupied (wrote st ws) = section_occupied st"
  "next_schedule_id (wrote st ws) = next_schedule_id st" "courses_with_both (wrote st ws) = courses_with_both st"
  "solver_calls (wrote st ws) = solver_calls st" "progress_state (wrote st ws) = progress_state st @ ws"
  by (simp_all add: wrote_def)

lemma course_loop_Cons:
  "course_loop pn tp n (c # rest) idx acc (b, st) =
     (case create_course_sessions st c b of
        (Raise e, b') \<Rightarrow> (Raise e, b', st)
      | (Fail, b') \<Rightarrow> (Fail, b', st)
      | (Done sessions, b') \<Rightarrow>
          course_loop pn tp n rest (Suc idx) (acc @ sessions)
            (b', wrote st (written (process_id st) [course_progress pn tp idx n])))"
  by (simp add: update_progress_wrote split: prod.splits outcome.splits)

declare course_loop.simps(2) [simp del]

lemma course_values_Suc: "course_values pn tp n idx (Suc k) = course_progress pn tp idx n # course_values pn tp n (Suc idx) k"
proof -
  have "[idx..<idx + Suc k] = idx # [Suc idx..<Suc idx + k]"
    by (subst upt_rec) simp
  then show ?thesis by (simp add: course_values_def)
qed

lemma course_loop_state:
  "course_loop pn tp n cs idx acc (b, st) = (r, b', st') \<Longrightarrow>
     next_id b \<le> next_id b' \<and>
     (\<exists>k \<le> length cs. st' = wrote st (written (process_id st) (course_values pn tp n idx k)) \<and>
        ((\<exists>ss. r = Done ss) \<longrightarrow> k = length cs))"
proof (induction cs arbitrary: idx acc b st)
  case Nil
  then show ?case by (auto simp: course_values_def written_def)
next
  case (Cons c rest)
  obtain r1 b1 where c1: "create_course_sessions st c b = (r1, b1)"
    by (cases "create_course_sessions st c b")
  from create_course_sessions_next_id[OF c1] have le: "next_id b \<le> next_id b1" .
  show ?case
  proof (cases r1)
    case (Raise e)
    with Cons.prems c1 le show ?thesis
      by (auto simp: course_loop_Cons course_values_def written_def intro!: exI[of _ 0])
  next
    case Fail
    with Cons.prems c1 le show ?thesis
      by (auto simp: course_loop_Cons course_values_def written_def intro!: exI[of _ 0])
  next
    case (Done sessions)
    let ?st1 = "wrote st (written (process_id st) [course_progress pn tp idx n])"
    from Cons.prems c1 Done
    have rec: "course_loop pn tp n rest (Suc idx) (acc @ sessions) (b1, ?st1) = (r, b', st')"
      by (simp add: course_loop_Cons)
    from Cons.IH[OF rec] obtain k where k: "next_id b1 \<le> next_id b'" "k \<le> length rest"
      "st' = wrote ?st1 (written (process_id ?st1) (course_values pn tp n (Suc idx) k))"
      "(\<exists>ss. r = Done ss) \<longrightarrow> k = length rest" by blast
    have "st' = wrote st (written (process_id st) (course_values pn tp n idx (Suc k)))"
      using k(3) by (simp add: course_values_Suc written_def)
    with k le show ?thesis by (intro conjI exI[of _ "Suc k"]) auto
  qed
qed

lemma course_loop_Done:
  assumes "course_loop pn tp n cs idx acc (b, st) = (Done ss, b', st')"
  shows "\<exists>new. ss = acc @ new \<and> map s_id new = [next_id b..<next_id b'] \<and>
     map sess_shape new = concat (map course_shape cs) \<and>
     (\<forall>s \<in> set new. posted (rooms st) b' s) \<and> grows b b'"
  using assms
proof (induction cs arbitrary: idx acc b st)
  case Nil
  then show ?case by simp
next
  case (Cons c rest)
  let ?st1 = "wrote st (written (process_id st) [course_progress pn tp idx n])"
  from Cons.prems obtain sessions b1 where
    c1: "create_course_sessions st c b = (Done sessions, b1)"
    and rec: "course_loop pn tp n rest (Suc idx) (acc @ sessions) (b1, ?st1) = (Done ss, b', st')"
    by (auto simp: course_loop_Cons split: prod.splits outcome.splits)
  from create_course_sessions_Done[OF c1] have C:
    "map s_id sessions = [next_id b..<next_id b1]" "map sess_shape sessions = course_shape c"
    "\<forall>s \<in> set sessions. posted (rooms st) b1 s" "grows b b1" by auto
  from Cons.IH[OF rec] obtain new where new:
    "ss = (acc @ sessions) @ new" "map s_id new = [next_id b1..<next_id b']"
    "map sess_shape new = concat (map course_shape rest)"
    "\<forall>s \<in> set new. posted (rooms st) b' s" "grows b1 b'" by auto
  have le: "next_id b \<le> next_id b1" "next_id b1 \<le> next_id b'"
    using C(4) new(5) by (auto simp: grows_def)
  have ids: "map s_id (sessions @ new) = [next_id b..<next_id b']"
    using C(1) new(2) le by (simp add: upt_append_upt)
  have po: "\<forall>s \<in> set (sessions @ new). posted (rooms st) b' s"
    using C(3) new(4) new(5) by (auto intro: posted_grows)
  have "grows b b'" using C(4) new(5) by (rule grows_trans)
  with ids po C(2) new(1,3) show ?case by (intro exI[of _ "sessions @ new"]) simp
qed


lemma py_nth_in_set: "py_nth xs i = Inr x \<Longrightarrow> x \<in> set xs"
  by (auto simp: py_nth_def Let_def split: if_splits)

lemma extract_event_Inr:
  assumes "extract_event st a s = Inr e"
  shows "schedule_id e = s_id s" "ev_shape e = sess_shape s"
    "start_slot e = a (StartV (s_id s))" "room_idx e = a (RoomV (s_id s))"
    "room_type e = s_type s" "duration e = s_duration s"
    "day e \<in> set (days st)" "rooms st (room_type e) \<noteq> None"
    "session e = (if s_type s = ''lecture'' then ''Lecture'' else ''Laboratory'')"
  using assms
  by (auto simp: extract_event_def Let_def ev_shape_def sess_shape_def
      split: if_splits sum.splits option.splits dest: py_nth_in_set)

lemma extract_phase_solution_Inr:
  "extract_phase_solution st a ss = Inr evs \<Longrightarrow> list_all2 (\<lambda>s e. extract_event st a s = Inr e) ss evs"
  by (induction ss arbitrary: evs) (auto split: sum.splits)

lemma extract_event_view:
  "days st' = days st \<Longrightarrow> rooms st' = rooms st \<Longrightarrow> inc_day st' = inc_day st \<Longrightarrow>
   courses_with_both st' = courses_with_both st \<Longrightarrow> extract_event st' a s = extract_event st a s"
  by (simp add: extract_event_def display_code_def Let_def
      cong del: if_weak_cong sum.case_cong_weak option.case_cong_weak)

lemma extracted_maps:
  assumes "list_all2 (\<lambda>s e. extract_event st a s = Inr e) ss evs"
  shows "map schedule_id evs = map s_id ss" "map ev_shape evs = map sess_shape ss"
  using assms by (induction rule: list_all2_induct) (auto dest: extract_event_Inr)

lemma extracted_from:
  assumes "list_all2 (\<lambda>s e. extract_event st a s = Inr e) ss evs" "e \<in> set evs"
  shows "\<exists>s \<in> set ss. extract_event st a s = Inr e"
  using assms by (induction rule: list_all2_induct) auto

lemma attempt_Done:
  assumes "solve_phase_attempt solver cs pn tp t opt st = (Done evs, st')"
  obtains ss b a where
    "map s_id ss = [next_schedule_id st..<next_id b]"
    "next_schedule_id st \<le> next_id b"
    "map sess_shape ss = concat (map course_shape cs)"
    "\<forall>s \<in> set ss. posted (rooms st) b s"
    "set (prior_fixed st) \<subseteq> set (room_intervals b)"
    "solver (solver_calls st) (phase_model b ss) opt t = Some a"
    "list_all2 (\<lambda>s e. extract_event st a s = Inr e) ss evs"
    "st' = update_occupancy_from_schedule evs
            ((wrote st (written (process_id st) (course_values pn tp (length cs) 0 (length cs))))
               \<lparr>next_schedule_id := next_id b, solver_calls := solver_calls st + 1\<rparr>)"
proof -
  let ?b0 = "\<lparr> model = [], section_intervals = [], room_intervals = prior_fixed st,
                 next_id = next_schedule_id st \<rparr>"
  obtain r b st1 where cl: "course_loop pn tp (length cs) cs 0 [] (?b0, st) = (r, b, st1)"
    by (cases "course_loop pn tp (length cs) cs 0 [] (?b0, st)")
  from assms cl obtain ss where r: "r = Done ss"
    by (cases r) (auto simp: solve_phase_attempt_def Let_def)
  from course_loop_state[OF cl] r
  have st1: "st1 = wrote st (written (process_id st) (course_values pn tp (length cs) 0 (length cs)))"
    by auto
  let ?st2 = "st1\<lparr>next_schedule_id := next_id b, solver_calls := solver_calls st1 + 1\<rparr>"
  from assms cl r obtain a where
    a: "solver (solver_calls st1) (phase_model b ss) opt t = Some a"
    and ex: "extract_phase_solution ?st2 a ss = Inr evs"
    and st': "st' = update_occupancy_from_schedule evs ?st2"
    by (auto simp: solve_phase_attempt_def Let_def split: option.splits sum.splits)
  have view: "extract_event (st1\<lparr>next_schedule_id := x, solver_calls := y\<rparr>) a s = extract_event st a s" for s x y
    by (rule extract_event_view) (simp_all add: st1)
  from extract_phase_solution_Inr[OF ex]
  have la: "list_all2 (\<lambda>s e. extract_event st a s = Inr e) ss evs" by (simp add: view)
  from course_loop_Done[OF cl[unfolded r]] have C:
    "map s_id ss = [next_schedule_id st..<next_id b]" "map sess_shape ss = concat (map course_shape cs)"
    "\<forall>s \<in> set ss. posted (rooms st) b s" "grows ?b0 b" by auto
  from C(4) have pf: "set (prior_fixed st) \<subseteq> set (room_intervals b)" by (simp add: grows_def)
  from a have a': "solver (solver_calls st) (phase_model b ss) opt t = Some a" by (simp add: st1)
  from st' have st'': "st' = update_occupancy_from_schedule evs
            ((wrote st (written (process_id st) (course_values pn tp (length cs) 0 (length cs))))
               \<lparr>next_schedule_id := next_id b, solver_calls := solver_calls st + 1\<rparr>)"
    by (simp add: st1)
  from C(4) have le: "next_schedule_id st \<le> next_id b" by (simp add: grows_def)
  show thesis by (rule that[OF C(1) le C(2,3) pf a' la st''])
qed


lemma apart_sym: "apart a x y = apart a y x"
  by (auto simp: apart_def)

lemma no_overlap_apart:
  "no_overlap a xs \<Longrightarrow> x \<in> set xs \<Longrightarrow> y \<in> set xs \<Longrightarrow> x \<noteq> y \<Longrightarrow> apart a x y"
  by (induction xs) (auto simp: apart_sym)

lemma bucket_mem: "(k, v) \<in> set entries \<Longrightarrow> v \<in> set (bucket k entries)"
  by (force simp: bucket_def)

lemma dict_keys_set [simp]: "set (dict_keys ks) = set ks"
  by (simp add: dict_keys_def)

lemma no_overlap_posted:
  "(k, v) \<in> set entries \<Longrightarrow> NoOverlap (bucket k entries) \<in> set (no_overlap_constraints entries)"
  by (force simp: no_overlap_constraints_def)

lemma satisfiesD: "satisfies a m \<Longrightarrow> c \<in> set m \<Longrightarrow> sat a c"
  by (simp add: satisfies_def list_all_iff)

lemma room_bucket_apart:
  assumes "satisfies a (phase_model b ss)" "(k, x) \<in> set (room_intervals b)"
    "(k, y) \<in> set (room_intervals b)" "x \<noteq> y"
  shows "apart a x y"
proof -
  have "NoOverlap (bucket k (room_intervals b)) \<in> set (phase_model b ss)"
    using no_overlap_posted[OF assms(2)] by (simp add: phase_model_def)
  from satisfiesD[OF assms(1) this] have "no_overlap a (bucket k (room_intervals b))" by simp
  then show ?thesis
    using bucket_mem[OF assms(2)] bucket_mem[OF assms(3)] assms(4) by (rule no_overlap_apart)
qed

lemma session_room_entry:
  assumes "satisfies a (phase_model b ss)" "posted rms b s"
  shows "((s_type s, a (RoomV (s_id s))), OptIv (s_id s) (s_duration s) (a (RoomV (s_id s))))
           \<in> set (room_intervals b)"
    and "a (EndV (s_id s)) = a (StartV (s_id s)) + s_duration s"
proof -
  from assms(2) obtain rs where rs: "rms (s_type s) = Some rs"
    and iv: "IntVar (RoomV (s_id s)) 0 (int (length rs) - 1) \<in> set (model b)"
    and ee: "EndEq (s_id s) (s_duration s) \<in> set (model b)"
    and en: "\<forall>r \<in> set (py_range 0 (int (length rs))).
        ((s_type s, r), OptIv (s_id s) (s_duration s) r) \<in> set (room_intervals b)"
    unfolding posted_def by blast
  from iv have "IntVar (RoomV (s_id s)) 0 (int (length rs) - 1) \<in> set (phase_model b ss)"
    by (simp add: phase_model_def)
  from satisfiesD[OF assms(1) this] have "a (RoomV (s_id s)) \<in> set (py_range 0 (int (length rs)))"
    by (simp add: py_range_def)
  with en show "((s_type s, a (RoomV (s_id s))), OptIv (s_id s) (s_duration s) (a (RoomV (s_id s))))
           \<in> set (room_intervals b)" by blast
  from ee have "EndEq (s_id s) (s_duration s) \<in> set (phase_model b ss)"
    by (simp add: phase_model_def)
  from satisfiesD[OF assms(1) this] show "a (EndV (s_id s)) = a (StartV (s_id s)) + s_duration s"
    by simp
qed

lemma prior_fixed_entry:
  "e \<in> set (global_schedule st) \<Longrightarrow> rooms st (room_type e) \<noteq> None \<Longrightarrow>
     ((room_type e, room_idx e), FixedIv (start_slot e) (duration e) (start_slot e + duration e))
       \<in> set (prior_fixed st)"
  by (force simp: prior_fixed_def)

lemma attempt_room_exclusive:
  assumes sound: "sound_solver solver"
    and run: "solve_phase_attempt solver cs pn tp t opt st = (Done evs, st')"
    and excl: "room_exclusive (global_schedule st)"
    and valid: "\<forall>e \<in> set (global_schedule st). rooms st (room_type e) \<noteq> None"
  shows "room_exclusive (global_schedule st @ evs)"
proof -
  from run obtain ss b a where
    "map s_id ss = [next_schedule_id st..<next_id b]"
    and "next_schedule_id st \<le> next_id b"
    and "map sess_shape ss = concat (map course_shape cs)"
    and po: "\<forall>s \<in> set ss. posted (rooms st) b s"
    and pf: "set (prior_fixed st) \<subseteq> set (room_intervals b)"
    and sv: "solver (solver_calls st) (phase_model b ss) opt t = Some a"
    and la: "list_all2 (\<lambda>s e. extract_event st a s = Inr e) ss evs"
    and "st' = update_occupancy_from_schedule evs
            ((wrote st (written (process_id st) (course_values pn tp (length cs) 0 (length cs))))
               \<lparr>next_schedule_id := next_id b, solver_calls := solver_calls st + 1\<rparr>)"
    by (rule attempt_Done)
  from sound sv have sat: "satisfies a (phase_model b ss)" by (auto simp: sound_solver_def)
  have new: "\<exists>i d. ((room_type e, room_idx e), OptIv i d (room_idx e)) \<in> set (room_intervals b) \<and>
      a (RoomV i) = room_idx e \<and> a (StartV i) = start_slot e \<and> a (EndV i) = start_slot e + duration e \<and>
      i = schedule_id e"
    if "e \<in> set evs" for e
  proof -
    from extracted_from[OF la that] obtain s where s: "s \<in> set ss" "extract_event st a s = Inr e" by blast
    from po s(1) have "posted (rooms st) b s" by blast
    from session_room_entry[OF sat this] extract_event_Inr[OF s(2)] show ?thesis by auto
  qed
  have old: "((room_type e, room_idx e), FixedIv (start_slot e) (duration e) (start_slot e + duration e))
       \<in> set (room_intervals b)" if "e \<in> set (global_schedule st)" for e
    using prior_fixed_entry[OF that] valid that pf by blast
  have new_old: "slots e1 \<inter> slots e2 = {}"
    if "e1 \<in> set evs" "e2 \<in> set (global_schedule st)" "room_type e1 = room_type e2" "room_idx e1 = room_idx e2"
    for e1 e2
  proof -
    from new[OF that(1)] obtain i d where
      n: "((room_type e1, room_idx e1), OptIv i d (room_idx e1)) \<in> set (room_intervals b)"
      "a (RoomV i) = room_idx e1" "a (StartV i) = start_slot e1" "a (EndV i) = start_slot e1 + duration e1"
      by blast
    from old[OF that(2)] that(3,4)
    have "((room_type e1, room_idx e1), FixedIv (start_slot e2) (duration e2) (start_slot e2 + duration e2))
       \<in> set (room_intervals b)" by simp
    from room_bucket_apart[OF sat n(1) this] n(2,3,4) show ?thesis
      by (auto simp: apart_def slots_def)
  qed
  have new_new: "slots e1 \<inter> slots e2 = {}"
    if "e1 \<in> set evs" "e2 \<in> set evs" "schedule_id e1 \<noteq> schedule_id e2"
      "room_type e1 = room_type e2" "room_idx e1 = room_idx e2" for e1 e2
  proof -
    from new[OF that(1)] obtain i d where
      n: "((room_type e1, room_idx e1), OptIv i d (room_idx e1)) \<in> set (room_intervals b)"
      "a (RoomV i) = room_idx e1" "a (StartV i) = start_slot e1" "a (EndV i) = start_slot e1 + duration e1"
      "i = schedule_id e1" by blast
    from new[OF that(2)] obtain j d' where
      m: "((room_type e2, room_idx e2), OptIv j d' (room_idx e2)) \<in> set (room_intervals b)"
      "a (RoomV j) = room_idx e2" "a (StartV j) = start_slot e2" "a (EndV j) = start_slot e2 + duration e2"
      "j = schedule_id e2" by blast
    from m(1) that(4,5)
    have m1: "((room_type e1, room_idx e1), OptIv j d' (room_idx e1)) \<in> set (room_intervals b)" by simp
    have "OptIv i d (room_idx e1) \<noteq> OptIv j d' (room_idx e1)" using n(5) m(5) that(3) by simp
    from room_bucket_apart[OF sat n(1) m1 this] n(2,3,4) m(2,3,4) that(5) show ?thesis
      by (auto simp: apart_def slots_def)
  qed
  show ?thesis
    unfolding room_exclusive_def
  proof (intro ballI impI)
    fix e1 e2 assume e: "e1 \<in> set (global_schedule st @ evs)" "e2 \<in> set (global_schedule st @ evs)"
      and h: "schedule_id e1 \<noteq> schedule_id e2 \<and> room_type e1 = room_type e2 \<and> room_idx e1 = room_idx e2"
    consider "e1 \<in> set (global_schedule st)" "e2 \<in> set (global_schedule st)"
      | "e1 \<in> set evs" "e2 \<in> set (global_schedule st)"
      | "e1 \<in> set (global_schedule st)" "e2 \<in> set evs"
      | "e1 \<in> set evs" "e2 \<in> set evs" using e by auto
    then show "slots e1 \<inter> slots e2 = {}"
    proof cases
      case 1
      with excl h show ?thesis unfolding room_exclusive_def by blast
    next
      case 2
      with new_old[of e1 e2] h show ?thesis by simp
    next
      case 3
      with new_old[of e2 e1] h show ?thesis by (simp add: Int_commute)
    next
      case 4
      with new_new[of e1 e2] h show ?thesis by simp
    qed
  qed
qed

section \<open>One phase\<close>

lemma commit_frame:
  "catalog_of (commit e st) = catalog_of st" "global_schedule (commit e st) = global_schedule st"
  "next_schedule_id (commit e st) = next_schedule_id st" "progress_state (commit e st) = progress_state st"
  "solver_calls (commit e st) = solver_calls st"
  by (simp_all add: commit_def catalog_of_def Let_def)

lemma update_occupancy_frame:
  "catalog_of (update_occupancy_from_schedule evs st) = catalog_of st \<and>
   global_schedule (update_occupancy_from_schedule evs st) = global_schedule st \<and>
   next_schedule_id (update_occupancy_from_schedule evs st) = next_schedule_id st \<and>
   progress_state (update_occupancy_from_schedule evs st) = progress_state st \<and>
   solver_calls (update_occupancy_from_schedule evs st) = solver_calls st"
  unfolding update_occupancy_from_schedule_def
  by (induction evs arbitrary: st) (simp_all add: commit_frame)

lemma attempt_Done_frame:
  assumes "solve_phase_attempt solver cs pn tp t opt st = (Done evs, st')"
  shows "catalog_of st' = catalog_of st" "global_schedule st' = global_schedule st"
    "progress_state st' = progress_state st @ written (process_id st) (course_values pn tp (length cs) 0 (length cs))"
    "map schedule_id evs = [next_schedule_id st..<next_schedule_id st']"
    "map ev_shape evs = concat (map course_shape cs)"
    "\<forall>e \<in> set evs. event_ok st e"
    "solver_calls st' = solver_calls st + 1" "next_schedule_id st \<le> next_schedule_id st'"
proof -
  from assms obtain ss b a where
    ids: "map s_id ss = [next_schedule_id st..<next_id b]"
    and le0: "next_schedule_id st \<le> next_id b"
    and sh: "map sess_shape ss = concat (map course_shape cs)"
    and "\<forall>s \<in> set ss. posted (rooms st) b s"
    and "set (prior_fixed st) \<subseteq> set (room_intervals b)"
    and "solver (solver_calls st) (phase_model b ss) opt t = Some a"
    and la: "list_all2 (\<lambda>s e. extract_event st a s = Inr e) ss evs"
    and st': "st' = update_occupancy_from_schedule evs
            ((wrote st (written (process_id st) (course_values pn tp (length cs) 0 (length cs))))
               \<lparr>next_schedule_id := next_id b, solver_calls := solver_calls st + 1\<rparr>)"
    by (rule attempt_Done)
  let ?st2 = "(wrote st (written (process_id st) (course_values pn tp (length cs) 0 (length cs))))
               \<lparr>next_schedule_id := next_id b, solver_calls := solver_calls st + 1\<rparr>"
  note fr = update_occupancy_frame[of evs ?st2, folded st']
  from fr show "catalog_of st' = catalog_of st" by (simp add: catalog_of_def)
  from fr show "global_schedule st' = global_schedule st" by simp
  from fr show "progress_state st' = progress_state st @ written (process_id st) (course_values pn tp (length cs) 0 (length cs))"
    by simp
  from fr show "solver_calls st' = solver_calls st + 1" by simp
  from fr have nid: "next_schedule_id st' = next_id b" by simp
  with le0 show "next_schedule_id st \<le> next_schedule_id st'" by simp
  from nid extracted_maps[OF la] ids sh
  show "map schedule_id evs = [next_schedule_id st..<next_schedule_id st']"
    "map ev_shape evs = concat (map course_shape cs)" by simp_all
  show "\<forall>e \<in> set evs. event_ok st e"
  proof
    fix e assume "e \<in> set evs"
    from extracted_from[OF la this] obtain s where "extract_event st a s = Inr e" by blast
    from extract_event_Inr(5,7,8,9)[OF this]
    show "event_ok st e" by (simp add: event_ok_def)
  qed
qed

lemma event_ok_catalog: "catalog_of st' = catalog_of st \<Longrightarrow> event_ok st' = event_ok st"
  by (simp add: catalog_of_def event_ok_def fun_eq_iff)

lemma attempt_Fail:
  assumes "solve_phase_attempt solver cs pn tp t opt st = (Fail, st')"
  shows "retried pn tp (length cs) st st'"
proof -
  let ?b0 = "\<lparr> model = [], section_intervals = [], room_intervals = prior_fixed st,
                 next_id = next_schedule_id st \<rparr>"
  obtain r b st1 where cl: "course_loop pn tp (length cs) cs 0 [] (?b0, st) = (r, b, st1)"
    by (cases "course_loop pn tp (length cs) cs 0 [] (?b0, st)")
  from course_loop_state[OF cl] obtain k where k: "next_schedule_id st \<le> next_id b" "k \<le> length cs"
    "st1 = wrote st (written (process_id st) (course_values pn tp (length cs) 0 k))" by auto
  have "\<exists>sc. st' = st1\<lparr>next_schedule_id := next_id b, solver_calls := sc\<rparr>"
  proof (cases r)
    case (Raise e)
    with assms cl show ?thesis by (simp add: solve_phase_attempt_def Let_def)
  next
    case Fail
    with assms cl have "st' = st1\<lparr>next_schedule_id := next_id b\<rparr>"
      by (simp add: solve_phase_attempt_def Let_def)
    then have "st' = st1\<lparr>next_schedule_id := next_id b, solver_calls := solver_calls st1\<rparr>" by simp
    then show ?thesis by blast
  next
    case (Done ss)
    with assms cl have "st' = st1\<lparr>next_schedule_id := next_id b, solver_calls := solver_calls st1 + 1\<rparr>"
      by (auto simp: solve_phase_attempt_def Let_def split: option.splits sum.splits)
    then show ?thesis by blast
  qed
  with k show ?thesis unfolding retried_def by blast
qed

lemma retried_frame:
  assumes "retried pn tp n st st'"
  shows "catalog_of st' = catalog_of st" "global_schedule st' = global_schedule st"
    "next_schedule_id st \<le> next_schedule_id st'"
  using assms by (auto simp: retried_def catalog_of_def)

lemma solve_phase_Done:
  assumes "solve_phase solver cs pn tp st = (Done evs, st')"
  shows "(cs = [] \<and> evs = [] \<and> st' = st) \<or>
    (\<exists>st_mid t opt. (st_mid = st \<or> retried pn tp (length cs) st st_mid) \<and>
        solve_phase_attempt solver cs pn tp t opt st_mid = (Done evs, st'))"
proof (cases "cs = []")
  case True
  with assms show ?thesis by (simp add: solve_phase_def)
next
  case False
  with assms obtain t where t: "get_phase_timeout pn tp (calculate_phase_difficulty cs) = Inr t"
    by (cases "get_phase_timeout pn tp (calculate_phase_difficulty cs)") (auto simp: solve_phase_def)
  obtain r1 st1 where a1: "solve_phase_attempt solver cs pn tp t False st = (r1, st1)"
    by (cases "solve_phase_attempt solver cs pn tp t False st")
  show ?thesis
  proof (cases r1)
    case (Raise e)
    with assms False t a1 show ?thesis by (simp add: solve_phase_def)
  next
    case Fail
    with assms False t a1
    have "solve_phase_attempt solver cs pn tp (retry_timeout t) True st1 = (Done evs, st')"
      by (simp add: solve_phase_def)
    moreover from attempt_Fail[OF a1[unfolded Fail]] have "retried pn tp (length cs) st st1" .
    ultimately show ?thesis by blast
  next
    case (Done x)
    with assms False t a1 have "solve_phase_attempt solver cs pn tp t False st = (Done evs, st')"
      by (simp add: solve_phase_def)
    then show ?thesis by blast
  qed
qed

lemma phase_Done:
  assumes "solve_phase solver cs pn tp st = (Done evs, st')"
  shows "catalog_of st' = catalog_of st" "global_schedule st' = global_schedule st"
    "\<exists>lo. next_schedule_id st \<le> lo \<and> lo \<le> next_schedule_id st' \<and> map schedule_id evs = [lo..<next_schedule_id st']"
    "map ev_shape evs = concat (map course_shape cs)"
    "\<forall>e \<in> set evs. event_ok st e"
proof -
  from solve_phase_Done[OF assms] consider
    (empty) "cs = []" "evs = []" "st' = st"
  | (solved) st_mid t opt where "st_mid = st \<or> retried pn tp (length cs) st st_mid"
      "solve_phase_attempt solver cs pn tp t opt st_mid = (Done evs, st')" by blast
  then have "catalog_of st' = catalog_of st \<and> global_schedule st' = global_schedule st \<and>
    (\<exists>lo. next_schedule_id st \<le> lo \<and> lo \<le> next_schedule_id st' \<and> map schedule_id evs = [lo..<next_schedule_id st']) \<and>
    map ev_shape evs = concat (map course_shape cs) \<and>
    (\<forall>e \<in> set evs. event_ok st e)"
  proof cases
    case empty
    then show ?thesis by auto
  next
    case solved
    from solved(1) have mid: "catalog_of st_mid = catalog_of st" "global_schedule st_mid = global_schedule st"
      "next_schedule_id st \<le> next_schedule_id st_mid"
      by (auto dest: retried_frame)
    note fr = attempt_Done_frame[OF solved(2)]
    from mid(1) have "rooms st_mid = rooms st" "days st_mid = days st" by (simp_all add: catalog_of_def)
    then have same: "event_ok st_mid = event_ok st" by (simp add: event_ok_def fun_eq_iff)
    from fr(1,2) mid same show ?thesis
      using fr(4,5,6,8) by (auto intro!: exI[of _ "next_schedule_id st_mid"])
  qed
  then show "catalog_of st' = catalog_of st" "global_schedule st' = global_schedule st"
    "\<exists>lo. next_schedule_id st \<le> lo \<and> lo \<le> next_schedule_id st' \<and> map schedule_id evs = [lo..<next_schedule_id st']"
    "map ev_shape evs = concat (map course_shape cs)"
    "\<forall>e \<in> set evs. event_ok st e" by blast+
qed

section \<open>The whole run\<close>

lemma phase_room:
  assumes sound: "sound_solver solver"
    and run: "solve_phase solver cs pn tp st = (Done evs, st')"
    and excl: "room_exclusive (global_schedule st)"
    and valid: "\<forall>e \<in> set (global_schedule st). rooms st (room_type e) \<noteq> None"
  shows "room_exclusive (global_schedule st @ evs)"
proof -
  from solve_phase_Done[OF run] consider
    (empty) "cs = []" "evs = []" "st' = st"
  | (solved) st_mid t opt where "st_mid = st \<or> retried pn tp (length cs) st st_mid"
      "solve_phase_attempt solver cs pn tp t opt st_mid = (Done evs, st')" by blast
  then show ?thesis
  proof cases
    case empty
    with excl show ?thesis by simp
  next
    case solved
    from solved(1) have mid: "catalog_of st_mid = catalog_of st" "global_schedule st_mid = global_schedule st"
      by (auto dest: retried_frame)
    from mid(1) have "rooms st_mid = rooms st" by (simp add: catalog_of_def)
    with attempt_room_exclusive[OF sound solved(2)] excl valid mid(2) show ?thesis by simp
  qed
qed

lemma phase_loop_Cons_Done:
  assumes "phase_loop solver tp (p # rest) pn combined st = (Done final, st')"
  obtains evs st1 where
    "solve_phase solver (courses_of_phase (all_courses st) p) pn tp st = (Done evs, st1)"
    "phase_loop solver tp rest (pn + 1) (combined @ evs) (st1\<lparr>global_schedule := combined @ evs\<rparr>) = (Done final, st')"
proof -
  obtain r st1 where sp: "solve_phase solver (courses_of_phase (all_courses st) p) pn tp st = (r, st1)"
    by (cases "solve_phase solver (courses_of_phase (all_courses st) p) pn tp st")
  with assms obtain evs where r: "r = Done evs" by (cases r) auto
  with assms sp have "phase_loop solver tp rest (pn + 1) (combined @ evs) (st1\<lparr>global_schedule := combined @ evs\<rparr>) = (Done final, st')"
    by simp
  with sp r show thesis by (intro that) auto
qed

declare phase_loop.simps(2) [simp del]

lemma catalog_of_global [simp]: "catalog_of (st\<lparr>global_schedule := g\<rparr>) = catalog_of st"
  by (simp add: catalog_of_def)

lemma event_ok_global [simp]: "event_ok (st\<lparr>global_schedule := g\<rparr>) = event_ok st"
  by (simp add: event_ok_def fun_eq_iff)

lemma phase_loop_Done:
  assumes "phase_loop solver tp phases pn combined st = (Done final, st')"
  shows "\<exists>new. final = combined @ new \<and>
     map ev_shape new = concat (map (\<lambda>p. concat (map course_shape (courses_of_phase (all_courses st) p))) phases) \<and>
     sorted_wrt (<) (map schedule_id new) \<and>
     (\<forall>e \<in> set new. next_schedule_id st \<le> schedule_id e \<and> schedule_id e < next_schedule_id st' \<and>
          event_ok st e) \<and>
     catalog_of st' = catalog_of st \<and> next_schedule_id st \<le> next_schedule_id st'"
  using assms
proof (induction phases arbitrary: pn combined st)
  case Nil
  then show ?case by simp
next
  case (Cons p rest)
  from Cons.prems obtain evs st1 where
    sp: "solve_phase solver (courses_of_phase (all_courses st) p) pn tp st = (Done evs, st1)"
    and rec: "phase_loop solver tp rest (pn + 1) (combined @ evs) (st1\<lparr>global_schedule := combined @ evs\<rparr>) = (Done final, st')"
    by (rule phase_loop_Cons_Done)
  note P = phase_Done[OF sp]
  from P(3) obtain lo where lo: "next_schedule_id st \<le> lo" "lo \<le> next_schedule_id st1"
    "map schedule_id evs = [lo..<next_schedule_id st1]" by blast
  from P(1) have same: "all_courses st1 = all_courses st" "event_ok st1 = event_ok st"
    by (simp add: catalog_of_def, rule event_ok_catalog)
  have "\<exists>new. final = (combined @ evs) @ new \<and>
     map ev_shape new = concat (map (\<lambda>p. concat (map course_shape (courses_of_phase (all_courses st) p))) rest) \<and>
     sorted_wrt (<) (map schedule_id new) \<and>
     (\<forall>e \<in> set new. next_schedule_id st1 \<le> schedule_id e \<and> schedule_id e < next_schedule_id st' \<and>
          event_ok st e) \<and>
     catalog_of st' = catalog_of st1 \<and> next_schedule_id st1 \<le> next_schedule_id st'"
    using Cons.IH[OF rec] by (simp add: same)
  then obtain new where new: "final = (combined @ evs) @ new"
    "map ev_shape new = concat (map (\<lambda>p. concat (map course_shape (courses_of_phase (all_courses st) p))) rest)"
    "sorted_wrt (<) (map schedule_id new)"
    "\<forall>e \<in> set new. next_schedule_id st1 \<le> schedule_id e \<and> schedule_id e < next_schedule_id st' \<and>
          event_ok st e"
    "catalog_of st' = catalog_of st1" "next_schedule_id st1 \<le> next_schedule_id st'"
    by auto
  have in_evs: "lo \<le> schedule_id e \<and> schedule_id e < next_schedule_id st1" if "e \<in> set evs" for e
  proof -
    from that have "schedule_id e \<in> set (map schedule_id evs)" by simp
    then show ?thesis unfolding lo(3) by simp
  qed
  have s1: "sorted_wrt (<) (map schedule_id evs)" unfolding lo(3) by (simp add: sorted_wrt_upt)
  have cross: "x < y" if "x \<in> set (map schedule_id evs)" "y \<in> set (map schedule_id new)" for x y
  proof -
    from that(1) have "x < next_schedule_id st1" unfolding lo(3) by simp
    moreover from that(2) obtain e where "e \<in> set new" "y = schedule_id e" by auto
    with new(4) have "next_schedule_id st1 \<le> y" by blast
    ultimately show ?thesis by simp
  qed
  have "sorted_wrt (<) (map schedule_id evs @ map schedule_id new)"
    unfolding sorted_wrt_append using s1 new(3) cross by blast
  then have "sorted_wrt (<) (map schedule_id (evs @ new))" by simp
  moreover have "\<forall>e \<in> set (evs @ new). next_schedule_id st \<le> schedule_id e \<and> schedule_id e < next_schedule_id st' \<and>
          event_ok st e"
  proof
    fix e assume "e \<in> set (evs @ new)"
    then consider "e \<in> set evs" | "e \<in> set new" by auto
    then show "next_schedule_id st \<le> schedule_id e \<and> schedule_id e < next_schedule_id st' \<and> event_ok st e"
    proof cases
      case 1
      from in_evs[OF 1] lo(1) new(6) have "next_schedule_id st \<le> schedule_id e \<and> schedule_id e < next_schedule_id st'"
        by simp
      moreover from P(5) 1 have "event_ok st e" by blast
      ultimately show ?thesis by simp
    next
      case 2
      with new(4) have "next_schedule_id st1 \<le> schedule_id e \<and> schedule_id e < next_schedule_id st' \<and> event_ok st e"
        by blast
      with lo(1,2) show ?thesis by simp
    qed
  qed
  moreover have "map ev_shape (evs @ new) =
      concat (map (\<lambda>p. concat (map course_shape (courses_of_phase (all_courses st) p))) (p # rest))"
    using P(4) new(2) by simp
  moreover have "catalog_of st' = catalog_of st" using new(5) P(1) by simp
  moreover have "next_schedule_id st \<le> next_schedule_id st'" using lo(1,2) new(6) by simp
  ultimately show ?case using new(1) by (intro exI[of _ "evs @ new"]) simp
qed

lemma phase_loop_room:
  assumes sound: "sound_solver solver"
    and run: "phase_loop solver tp phases pn combined st = (Done final, st')"
    and gs: "global_schedule st = combined"
    and excl: "room_exclusive combined"
    and valid: "\<forall>e \<in> set combined. rooms st (room_type e) \<noteq> None"
  shows "room_exclusive final"
  using run gs excl valid
proof (induction phases arbitrary: pn combined st)
  case Nil
  then show ?case by simp
next
  case (Cons p rest)
  from Cons.prems(1) obtain evs st1 where
    sp: "solve_phase solver (courses_of_phase (all_courses st) p) pn tp st = (Done evs, st1)"
    and rec: "phase_loop solver tp rest (pn + 1) (combined @ evs) (st1\<lparr>global_schedule := combined @ evs\<rparr>) = (Done final, st')"
    by (rule phase_loop_Cons_Done)
  note P = phase_Done[OF sp]
  from P(1) have same: "rooms st1 = rooms st" by (simp add: catalog_of_def)
  have ex: "room_exclusive (combined @ evs)"
    using phase_room[OF sound sp] Cons.prems(2,3,4) by simp
  have va: "\<forall>e \<in> set (combined @ evs). rooms (st1\<lparr>global_schedule := combined @ evs\<rparr>) (room_type e) \<noteq> None"
    using Cons.prems(4) P(5) same by (auto simp: event_ok_def)
  show ?case by (rule Cons.IH[OF rec _ ex va]) simp
qed


subsection \<open>From the catalogs to the sorted events\<close>

lemma update_progress_fields [simp]:
  "catalog_of (update_progress v st) = catalog_of st"
  "global_schedule (update_progress v st) = global_schedule st"
  "next_schedule_id (update_progress v st) = next_schedule_id st"
  "all_courses (update_progress v st) = all_courses st"
  "rooms (update_progress v st) = rooms st"
  "days (update_progress v st) = days st"
  "process_id (update_progress v st) = process_id st"
  "progress_state (update_progress v st) = progress_state st @ written (process_id st) [v]"
  by (simp_all add: update_progress_wrote catalog_of_def)

lemma setup_time_parameters_fields [simp]:
  "all_courses (setup_time_parameters ts st) = all_courses st"
  "global_schedule (setup_time_parameters ts st) = global_schedule st"
  "next_schedule_id (setup_time_parameters ts st) = next_schedule_id st"
  "rooms (setup_time_parameters ts st) = rooms st"
  "days (setup_time_parameters ts st) = days st"
  "process_id (setup_time_parameters ts st) = process_id st"
  "progress_state (setup_time_parameters ts st) = progress_state st"
  by (simp_all add: setup_time_parameters_def Let_def)

lemma partition_snd_fields [simp]:
  "global_schedule (snd (prioritize_and_partition_courses cs st)) = global_schedule st"
  "next_schedule_id (snd (prioritize_and_partition_courses cs st)) = next_schedule_id st"
  "rooms (snd (prioritize_and_partition_courses cs st)) = rooms st"
  "days (snd (prioritize_and_partition_courses cs st)) = days st"
  "process_id (snd (prioritize_and_partition_courses cs st)) = process_id st"
  "progress_state (snd (prioritize_and_partition_courses cs st)) = progress_state st"
  by (simp_all add: prioritize_and_partition_courses_def Let_def)

lemma written_Cons: "written pid (v # vs) = written pid [v] @ written pid vs"
  by (simp add: written_def)

lemma load_data_ok:
  assumes "load_data env st0 = (None, st1)"
  obtains courses rs ts ds where
    "load_courses env = Inr courses" "load_rooms env = Inr rs"
    "load_time_settings env = Inr ts" "load_days env = Inr ds"
    "all_courses st1 = fst (prioritize_and_partition_courses courses st0)"
    "global_schedule st1 = global_schedule st0" "next_schedule_id st1 = next_schedule_id st0"
    "rooms st1 = rs" "days st1 = ds" "process_id st1 = process_id st0"
    "progress_state st1 = progress_state st0 @ written (process_id st0) [5, 15, 25, 35, 45, 50]"
proof -
  from assms obtain courses where c: "load_courses env = Inr courses"
    by (cases "load_courses env") (auto simp: load_data_def Let_def)
  from assms c obtain rs where r: "load_rooms env = Inr rs"
    by (cases "load_rooms env") (auto simp: load_data_def Let_def case_prod_beta)
  from assms c r obtain ts where t: "load_time_settings env = Inr ts"
    by (cases "load_time_settings env") (auto simp: load_data_def Let_def case_prod_beta)
  from assms c r t obtain ds where d: "load_days env = Inr ds"
    by (cases "load_days env") (auto simp: load_data_def Let_def case_prod_beta)
  from assms c r t d have st1: "st1 = update_progress 50 (setup_time_parameters ts
      (update_progress 45 ((update_progress 35 (update_progress 25
         ((update_progress 15 ((snd (prioritize_and_partition_courses courses (update_progress 5 st0)))
            \<lparr>all_courses := fst (prioritize_and_partition_courses courses (update_progress 5 st0))\<rparr>))
            \<lparr>rooms := rs\<rparr>)))\<lparr>days := ds\<rparr>)))"
    by (simp add: load_data_def Let_def case_prod_beta)
  show thesis
  proof (rule that[OF c r t d])
    show "all_courses st1 = fst (prioritize_and_partition_courses courses st0)"
      unfolding st1 by (simp add: partition_fst)
    show "global_schedule st1 = global_schedule st0" "next_schedule_id st1 = next_schedule_id st0"
      "rooms st1 = rs" "days st1 = ds" "process_id st1 = process_id st0"
      unfolding st1 by simp_all
    show "progress_state st1 = progress_state st0 @ written (process_id st0) [5, 15, 25, 35, 45, 50]"
      unfolding st1 by simp (simp add: written_def)
  qed
qed

lemma solve_events_Done:
  assumes "solve_events solver st = (Done evs, st')"
  obtains combined where
    "phase_loop solver (int (length (phases_present (all_courses st)))) (phases_present (all_courses st)) 1 []
       (update_progress 52 st) = (Done combined, st')"
    "evs = sort_key (\<lambda>x. (first_index (days st') (day x), start_slot x)) combined"
proof -
  let ?ph = "phases_present (all_courses st)"
  obtain r st2 where pl: "phase_loop solver (int (length ?ph)) ?ph 1 [] (update_progress 52 st) = (r, st2)"
    by (cases "phase_loop solver (int (length ?ph)) ?ph 1 [] (update_progress 52 st)")
  with assms obtain combined where r: "r = Done combined"
    by (cases r) (auto simp: solve_events_def Let_def)
  from assms pl r have "st' = st2 \<and> evs = sort_key (\<lambda>x. (first_index (days st2) (day x), start_slot x)) combined"
    by (auto simp: solve_events_def Let_def sort_schedule_def split: if_splits)
  with pl r show thesis by (intro that) auto
qed

lemma courses_of_phase_split:
  "mset (map snd pcs) =
     mset (courses_of_phase pcs PHASE_1_FLEXIBLE) + mset (courses_of_phase pcs PHASE_2_REGULAR) +
     mset (courses_of_phase pcs PHASE_3_CRITICAL)"
proof (induction pcs)
  case Nil
  then show ?case by (simp add: courses_of_phase_def)
next
  case (Cons pc pcs)
  then show ?case by (cases "fst pc") (simp_all add: courses_of_phase_def)
qed

lemma courses_of_absent_phase: "p \<notin> set (map fst pcs) \<Longrightarrow> courses_of_phase pcs p = []"
  by (auto simp: courses_of_phase_def filter_empty_conv)

lemma concat_map_filter_absent:
  "(\<And>x. x \<in> set xs \<Longrightarrow> \<not> P x \<Longrightarrow> f x = []) \<Longrightarrow> concat (map f (filter P xs)) = concat (map f xs)"
  by (induction xs) auto

lemma phases_cover:
  "mset (concat (map (courses_of_phase pcs) (phases_present pcs))) = mset (map snd pcs)"
proof -
  have "concat (map (courses_of_phase pcs) (phases_present pcs)) =
      concat (map (courses_of_phase pcs) [PHASE_1_FLEXIBLE, PHASE_2_REGULAR, PHASE_3_CRITICAL])"
    unfolding phases_present_def
    by (rule concat_map_filter_absent) (rule courses_of_absent_phase)
  then show ?thesis using courses_of_phase_split[of pcs] by (simp add: add.assoc)
qed

lemma concat_map_concat_map:
  "concat (map f (concat xss)) = concat (map (\<lambda>xs. concat (map f xs)) xss)"
  by (induction xss) auto

lemma mset_concat_map_cong:
  assumes "mset xs = mset ys"
  shows "mset (concat (map f xs)) = mset (concat (map f ys))"
proof -
  have "mset (concat (map f zs)) = sum_mset (image_mset (\<lambda>z. mset (f z)) (mset zs))" for zs
    by (induction zs) auto
  with assms show ?thesis by simp
qed

lemma run_events_Done:
  assumes "run_events solver env pid = Done evs"
  obtains courses combined st1 st' where
    "load_courses env = Inr courses"
    "mset (map snd (all_courses st1)) = mset courses"
    "global_schedule st1 = []" "next_schedule_id st1 = 1"
    "phase_loop solver (int (length (phases_present (all_courses st1)))) (phases_present (all_courses st1)) 1 []
       (update_progress 52 st1) = (Done combined, st')"
    "mset evs = mset combined"
proof -
  obtain r st1 where ld: "load_data env (init pid) = (r, st1)" by (cases "load_data env (init pid)")
  with assms have r: "r = None" by (cases r) (auto simp: run_events_def)
  from ld[unfolded r] obtain courses rs ts ds where L:
    "load_courses env = Inr courses" "load_rooms env = Inr rs"
    "load_time_settings env = Inr ts" "load_days env = Inr ds"
    "all_courses st1 = fst (prioritize_and_partition_courses courses (init pid))"
    "global_schedule st1 = global_schedule (init pid)" "next_schedule_id st1 = next_schedule_id (init pid)"
    "rooms st1 = rs" "days st1 = ds" "process_id st1 = process_id (init pid)"
    "progress_state st1 = progress_state (init pid) @ written (process_id (init pid)) [5, 15, 25, 35, 45, 50]"
    by (rule load_data_ok)
  obtain r2 st' where se: "solve_events solver st1 = (r2, st')" by (cases "solve_events solver st1")
  with assms ld r have r2: "r2 = Done evs" by (simp add: run_events_def)
  from se[unfolded r2] obtain combined where C:
    "phase_loop solver (int (length (phases_present (all_courses st1)))) (phases_present (all_courses st1)) 1 []
       (update_progress 52 st1) = (Done combined, st')"
    "evs = sort_key (\<lambda>x. (first_index (days st') (day x), start_slot x)) combined"
    by (rule solve_events_Done)
  show thesis
  proof (rule that[OF L(1) _ _ _ C(1)])
    show "mset (map snd (all_courses st1)) = mset courses" unfolding L(5) by (rule partition_courses_mset)
    show "global_schedule st1 = []" using L(6) by (simp add: init_def)
    show "next_schedule_id st1 = 1" using L(7) by (simp add: init_def)
    show "mset evs = mset combined" unfolding C(2) by simp
  qed
qed

lemma run_events_summary:
  assumes "run_events solver env pid = Done evs"
  shows "distinct (map schedule_id evs)"
    and "\<forall>e \<in> set evs. 1 \<le> schedule_id e"
    and "\<forall>e \<in> set evs. session e = (if room_type e = ''lecture'' then ''Lecture'' else ''Laboratory'')"
    and "\<And>courses. load_courses env = Inr courses \<Longrightarrow>
           mset (map ev_shape evs) = mset (concat (map course_shape courses))"
    and "sound_solver solver \<Longrightarrow> room_exclusive evs"
proof -
  from assms obtain courses combined st1 st' where R:
    "load_courses env = Inr courses"
    "mset (map snd (all_courses st1)) = mset courses"
    "global_schedule st1 = []" "next_schedule_id st1 = 1"
    "phase_loop solver (int (length (phases_present (all_courses st1)))) (phases_present (all_courses st1)) 1 []
       (update_progress 52 st1) = (Done combined, st')"
    "mset evs = mset combined"
    by (rule run_events_Done)
  let ?st = "update_progress 52 st1"
  from phase_loop_Done[OF R(5)] have P:
    "map ev_shape combined = concat (map (\<lambda>p. concat (map course_shape (courses_of_phase (all_courses st1) p)))
        (phases_present (all_courses st1)))"
    "sorted_wrt (<) (map schedule_id combined)"
    "\<forall>e \<in> set combined. next_schedule_id ?st \<le> schedule_id e \<and> schedule_id e < next_schedule_id st' \<and> event_ok ?st e"
    by auto
  from R(6) have set_eq: "set evs = set combined" by (rule mset_eq_setD)
  from R(6) have ms: "mset (map schedule_id evs) = mset (map schedule_id combined)" by simp
  from P(2) have "distinct (map schedule_id combined)" by (simp add: strict_sorted_iff)
  then show "distinct (map schedule_id evs)" by (simp add: mset_eq_imp_distinct_iff[OF ms])
  from P(3) R(4) set_eq show "\<forall>e \<in> set evs. 1 \<le> schedule_id e" by simp
  from P(3) set_eq
  show "\<forall>e \<in> set evs. session e = (if room_type e = ''lecture'' then ''Lecture'' else ''Laboratory'')"
    by (simp add: event_ok_def)
  show "mset (map ev_shape evs) = mset (concat (map course_shape courses'))"
    if "load_courses env = Inr courses'" for courses'
  proof -
    from that R(1) have eq: "courses' = courses" by simp
    have "mset (map ev_shape evs) = mset (map ev_shape combined)" using R(6) by simp
    also have "\<dots> = mset (concat (map course_shape
        (concat (map (courses_of_phase (all_courses st1)) (phases_present (all_courses st1))))))"
      unfolding P(1) by (simp add: concat_map_concat_map comp_def)
    also have "\<dots> = mset (concat (map course_shape courses))"
    proof (rule mset_concat_map_cong)
      show "mset (concat (map (courses_of_phase (all_courses st1)) (phases_present (all_courses st1)))) = mset courses"
        unfolding phases_cover R(2) ..
    qed
    finally show ?thesis unfolding eq .
  qed
  show "room_exclusive evs" if sound: "sound_solver solver"
  proof -
    have "room_exclusive combined"
      by (rule phase_loop_room[OF sound R(5)]) (simp_all add: R(3) room_exclusive_def)
    with set_eq show ?thesis by (simp add: room_exclusive_def)
  qed
qed

section \<open>Room exclusivity\<close>

lemma sound_checked: "sound_solver (checked a)"
  by (auto simp: sound_solver_def checked_def)

lemma run_contention: "run_events (checked values_contention) env_contention None = Done [ev_fr101, ev_en401]"
  by code_simp

lemma distinct_ids_nth:
  "distinct (map schedule_id evs) \<Longrightarrow> i < length evs \<Longrightarrow> j < length evs \<Longrightarrow> i \<noteq> j \<Longrightarrow>
     schedule_id (evs ! i) \<noteq> schedule_id (evs ! j)"
  by (metis length_map nth_eq_iff_index_eq nth_map)

text \<open>
  Claim C1. The final schedule is the list \<open>run_events\<close> returns: the events of all phases
  after the final sort, while they still carry their scratch keys. When the solver's answers
  satisfy the models it is given, any two events at different positions of that list with the
  same room kind and room index occupy disjoint slot intervals
  \<open>[start_slot, start_slot + duration)\<close>, whether one phase produced both or not: the events
  of earlier phases stand as fixed intervals in the room buckets of a later phase.
\<close>

theorem room_exclusivity:
  assumes "sound_solver solver" and "run_events solver env pid = Done evs"
  shows "\<forall>i < length evs. \<forall>j < length evs.
     i \<noteq> j \<and> room_type (evs ! i) = room_type (evs ! j) \<and> room_idx (evs ! i) = room_idx (evs ! j) \<longrightarrow>
       {start_slot (evs ! i)..<start_slot (evs ! i) + duration (evs ! i)} \<inter>
       {start_slot (evs ! j)..<start_slot (evs ! j) + duration (evs ! j)} = {}"
proof (intro allI impI)
  fix i j assume i: "i < length evs" and j: "j < length evs"
    and h: "i \<noteq> j \<and> room_type (evs ! i) = room_type (evs ! j) \<and> room_idx (evs ! i) = room_idx (evs ! j)"
  from run_events_summary(1)[OF assms(2)] i j h
  have ne: "schedule_id (evs ! i) \<noteq> schedule_id (evs ! j)" by (simp add: distinct_ids_nth)
  from run_events_summary(5)[OF assms(2) assms(1)] have "room_exclusive evs" .
  moreover have "evs ! i \<in> set evs" "evs ! j \<in> set evs" using i j by simp_all
  ultimately have "slots (evs ! i) \<inter> slots (evs ! j) = {}"
    using ne h unfolding room_exclusive_def by blast
  then show "{start_slot (evs ! i)..<start_slot (evs ! i) + duration (evs ! i)} \<inter>
       {start_slot (evs ! j)..<start_slot (evs ! j) + duration (evs ! j)} = {}"
    by (simp add: slots_def)
qed

theorem room_exclusivity_witness:
  "sound_solver (checked values_contention) \<and>
   run_events (checked values_contention) env_contention None = Done [ev_fr101, ev_en401] \<and>
   room_type ev_fr101 = room_type ev_en401 \<and> room_idx ev_fr101 = room_idx ev_en401 \<and>
   {start_slot ev_fr101..<start_slot ev_fr101 + duration ev_fr101} \<inter>
   {start_slot ev_en401..<start_slot ev_en401 + duration ev_en401} = {}"
proof -
  note t = room_exclusivity[OF sound_checked run_contention, rule_format, of 0 1]
  have same: "room_type ev_fr101 = room_type ev_en401" "room_idx ev_fr101 = room_idx ev_en401"
    by (simp_all add: ev_fr101_def ev_en401_def)
  from t same have "{start_slot ev_fr101..<start_slot ev_fr101 + duration ev_fr101} \<inter>
   {start_slot ev_en401..<start_slot ev_en401 + duration ev_en401} = {}" by simp
  with sound_checked run_contention same show ?thesis by blast
qed

section \<open>Identifiers and the result dictionary\<close>

lemma truncate_schedule_id [simp]: "schedule_id (out_event.truncate e) = schedule_id e"
  by (simp add: out_event.truncate_def)

lemma solve_Schedule:
  assumes "solve solver st = (Inr (Schedule out), st')"
  obtains evs st2 where "solve_events solver st = (Done evs, st2)" "out = map out_event.truncate evs"
    "st' = update_progress 95 st2"
proof -
  obtain r st2 where se: "solve_events solver st = (r, st2)" by (cases "solve_events solver st")
  with assms obtain evs where r: "r = Done evs" by (cases r) (auto simp: solve_def)
  with assms se have "out = map out_event.truncate evs" "st' = update_progress 95 st2"
    by (auto simp: solve_def)
  with se r show thesis by (intro that) auto
qed

lemma generate_success:
  assumes "returned (generate_schedule solver env pid old) = Schedule out"
  obtains evs where "run_events solver env pid = Done evs" "out = map out_event.truncate evs"
    "schedule_dict (generate_schedule solver env pid old) = dict_of out"
proof -
  obtain r st1 where ld: "load_data env (init pid) = (r, st1)" by (cases "load_data env (init pid)")
  with assms have r: "r = None" by (cases r) (auto simp: generate_schedule_def)
  obtain r2 st2 where sv: "solve solver st1 = (r2, st2)" by (cases "solve solver st1")
  from assms ld r sv have r2: "r2 = Inr (Schedule out)"
    by (cases r2; cases "projr r2") (auto simp: generate_schedule_def)
  from sv[unfolded r2] obtain evs st3 where S: "solve_events solver st1 = (Done evs, st3)"
    "out = map out_event.truncate evs" "st2 = update_progress 95 st3"
    by (rule solve_Schedule)
  from ld r S(1) have "run_events solver env pid = Done evs" by (simp add: run_events_def)
  moreover from ld r sv r2 have "schedule_dict (generate_schedule solver env pid old) = dict_of out"
    by (simp add: generate_schedule_def)
  ultimately show thesis using S(2) by (intro that)
qed

lemma dict_fold_dom:
  "dom (fold (\<lambda>e m. m(schedule_id e \<mapsto> e)) evs m0) = dom m0 \<union> schedule_id ` set evs"
  by (induction evs arbitrary: m0) auto

lemma dict_fold_other:
  "k \<notin> schedule_id ` set evs \<Longrightarrow> fold (\<lambda>e m. m(schedule_id e \<mapsto> e)) evs m0 k = m0 k"
  by (induction evs arbitrary: m0) auto

lemma dict_fold_lookup:
  "distinct (map schedule_id evs) \<Longrightarrow> e \<in> set evs \<Longrightarrow>
     fold (\<lambda>e m. m(schedule_id e \<mapsto> e)) evs m0 (schedule_id e) = Some e"
proof (induction evs arbitrary: m0)
  case Nil
  then show ?case by simp
next
  case (Cons x xs)
  show ?case
  proof (cases "e = x")
    case True
    with Cons.prems(1) have "schedule_id x \<notin> schedule_id ` set xs" by auto
    from dict_fold_other[OF this, of "m0(schedule_id x \<mapsto> x)"]
    have "fold (\<lambda>e m. m(schedule_id e \<mapsto> e)) xs (m0(schedule_id x \<mapsto> x)) (schedule_id x) = Some x"
      by simp
    then show ?thesis unfolding True by (simp only: fold.simps comp_apply)
  next
    case False
    with Cons show ?thesis by simp
  qed
qed

text \<open>
  Claim C10. When a run returns a schedule, its events carry pairwise different
  \<open>schedule_id\<close>s (the counter only counts upwards, through failed build attempts as well),
  so the result dictionary built from the list has one key per event and maps the
  identifier of every event to that event.
\<close>

theorem schedule_id_unique:
  assumes "returned (generate_schedule solver env pid old) = Schedule out"
  shows "distinct (map schedule_id out) \<and>
     dom (schedule_dict (generate_schedule solver env pid old)) = schedule_id ` set out \<and>
     card (dom (schedule_dict (generate_schedule solver env pid old))) = length out \<and>
     (\<forall>e \<in> set out. schedule_dict (generate_schedule solver env pid old) (schedule_id e) = Some e)"
proof -
  from assms obtain evs where G: "run_events solver env pid = Done evs" "out = map out_event.truncate evs"
    "schedule_dict (generate_schedule solver env pid old) = dict_of out"
    by (rule generate_success)
  have ids: "map schedule_id out = map schedule_id evs" unfolding G(2) by simp
  from run_events_summary(1)[OF G(1)] have d: "distinct (map schedule_id out)" unfolding ids .
  have dm: "dom (dict_of out) = schedule_id ` set out" by (simp add: dict_of_def dict_fold_dom)
  have "card (schedule_id ` set out) = length out"
    using d by (metis distinct_card length_map set_map)
  moreover have "\<forall>e \<in> set out. dict_of out (schedule_id e) = Some e"
    using d by (simp add: dict_of_def dict_fold_lookup)
  ultimately show ?thesis using d dm unfolding G(3) by simp
qed

lemma gen_contention:
  "returned (generate_schedule (checked values_contention) env_contention None Map.empty) =
     Schedule [out_event.truncate ev_fr101, out_event.truncate ev_en401]"
  by code_simp

theorem schedule_id_unique_witness:
  "returned (generate_schedule (checked values_contention) env_contention None Map.empty) =
     Schedule [out_event.truncate ev_fr101, out_event.truncate ev_en401] \<and>
   distinct (map schedule_id [out_event.truncate ev_fr101, out_event.truncate ev_en401]) \<and>
   card (dom (schedule_dict (generate_schedule (checked values_contention) env_contention None Map.empty))) = 2 \<and>
   schedule_dict (generate_schedule (checked values_contention) env_contention None Map.empty) 2
     = Some (out_event.truncate ev_en401)"
proof -
  note t = schedule_id_unique[OF gen_contention]
  from t have a: "distinct (map schedule_id [out_event.truncate ev_fr101, out_event.truncate ev_en401])"
    by (rule conjunct1)
  from t have b: "card (dom (schedule_dict (generate_schedule (checked values_contention) env_contention None Map.empty))) = 2"
    by simp
  from t have "schedule_dict (generate_schedule (checked values_contention) env_contention None Map.empty)
      (schedule_id (out_event.truncate ev_en401)) = Some (out_event.truncate ev_en401)" by simp
  then have c: "schedule_dict (generate_schedule (checked values_contention) env_contention None Map.empty) 2
     = Some (out_event.truncate ev_en401)" by (simp add: ev_en401_def)
  from gen_contention a b c show ?thesis by blast
qed

section \<open>Meeting count\<close>

lemma sum_single:
  assumes "distinct (map key xs)" "x \<in> set xs" "\<And>y. y \<in> set xs \<Longrightarrow> key y \<noteq> key x \<Longrightarrow> h y = (0::nat)"
  shows "sum_list (map h xs) = h x"
  using assms
proof (induction xs)
  case Nil
  then show ?case by simp
next
  case (Cons a xs)
  show ?case
  proof (cases "a = x")
    case True
    have "h y = 0" if "y \<in> set xs" for y
    proof -
      from Cons.prems(1) True have "key x \<notin> key ` set xs" by simp
      with that have "key y \<noteq> key x" by (metis imageI)
      with Cons.prems(3) that show ?thesis by simp
    qed
    then have "sum_list (map h xs) = 0" by simp
    with True show ?thesis by simp
  next
    case False
    with Cons.prems(2) have x: "x \<in> set xs" by simp
    with Cons.prems(1) have "key a \<noteq> key x" by (metis distinct.simps(2) imageI list.simps(9) set_map)
    with Cons.prems(3) have "h a = 0" by simp
    moreover have "sum_list (map h xs) = h x"
      using Cons.IH Cons.prems(1,3) x by simp
    ultimately show ?thesis by simp
  qed
qed

lemma length_filter_concat_map:
  "length (filter P (concat (map g xs))) = sum_list (map (\<lambda>x. length (filter P (g x))) xs)"
  by (induction xs) auto

lemma block_shape_count:
  "length (filter (shape_of c b lec) (block_shape c bi)) =
     (if bi = b then (if lec then nat (unitsLecture c) else nat (unitsLab c * 2)) else 0)"
  by (auto simp: block_shape_def shape_of_def)

lemma course_shape_count:
  assumes "0 \<le> b" "b < blocks c"
  shows "length (filter (shape_of c b lec) (course_shape c)) =
     (if lec then nat (unitsLecture c) else nat (unitsLab c * 2))"
proof -
  have "length (filter (shape_of c b lec) (course_shape c)) =
      sum_list (map (\<lambda>bi. length (filter (shape_of c b lec) (block_shape c bi))) (py_range 0 (blocks c)))"
    unfolding course_shape_def by (rule length_filter_concat_map)
  also have "\<dots> = length (filter (shape_of c b lec) (block_shape c b))"
  proof (rule sum_single[where key = "\<lambda>x. x"])
    show "distinct (map (\<lambda>x. x) (py_range 0 (blocks c)))" by (simp add: py_range_def)
    show "b \<in> set (py_range 0 (blocks c))" using assms by (simp add: py_range_def)
    show "length (filter (shape_of c b lec) (block_shape c y)) = 0" if "y \<noteq> b" for y
      using that by (simp add: block_shape_count)
  qed
  finally show ?thesis by (simp add: block_shape_count)
qed

lemma other_course_count:
  "course_key y \<noteq> course_key c \<Longrightarrow> length (filter (shape_of c b lec) (course_shape y)) = 0"
proof -
  assume ne: "course_key y \<noteq> course_key c"
  have "\<forall>sh \<in> set (course_shape y). \<not> shape_of c b lec sh"
    using ne by (auto simp: course_shape_def block_shape_def shape_of_def course_key_def)
  then have "filter (shape_of c b lec) (course_shape y) = []" by (simp add: filter_empty_conv)
  then show ?thesis by simp
qed

lemma courses_count:
  assumes "distinct (map course_key courses)" "c \<in> set courses" "0 \<le> b" "b < blocks c"
  shows "length (filter (shape_of c b lec) (concat (map course_shape courses))) =
     (if lec then nat (unitsLecture c) else nat (unitsLab c * 2))"
proof -
  have "length (filter (shape_of c b lec) (concat (map course_shape courses))) =
      sum_list (map (\<lambda>x. length (filter (shape_of c b lec) (course_shape x))) courses)"
    by (rule length_filter_concat_map)
  also have "\<dots> = length (filter (shape_of c b lec) (course_shape c))"
    by (rule sum_single[where key = course_key, OF assms(1,2)]) (rule other_course_count)
  finally show ?thesis using course_shape_count[OF assms(3,4)] by simp
qed

lemma length_filter_mset: "mset xs = mset ys \<Longrightarrow> length (filter P xs) = length (filter P ys)"
  by (metis mset_filter size_mset)

lemma meeting_count_shape:
  assumes "\<forall>e \<in> set evs. session e = (if room_type e = ''lecture'' then ''Lecture'' else ''Laboratory'')"
  shows "meeting_count evs c b ''Lecture'' = length (filter (shape_of c b True) (map ev_shape evs))"
    and "meeting_count evs c b ''Laboratory'' = length (filter (shape_of c b False) (map ev_shape evs))"
proof -
  have "meeting_count evs c b ''Lecture'' = length (filter (shape_of c b True \<circ> ev_shape) evs)"
    unfolding meeting_count_def
    by (rule arg_cong[where f = length], rule filter_cong)
       (use assms in \<open>auto simp: shape_of_def ev_shape_def\<close>)
  then show "meeting_count evs c b ''Lecture'' = length (filter (shape_of c b True) (map ev_shape evs))"
    by (simp add: filter_map)
  have "meeting_count evs c b ''Laboratory'' = length (filter (shape_of c b False \<circ> ev_shape) evs)"
    unfolding meeting_count_def
    by (rule arg_cong[where f = length], rule filter_cong)
       (use assms in \<open>auto simp: shape_of_def ev_shape_def\<close>)
  then show "meeting_count evs c b ''Laboratory'' = length (filter (shape_of c b False) (map ev_shape evs))"
    by (simp add: filter_map)
qed

lemma course_shape_durations:
  "(code, prog, yr, blk, ty, d) \<in> set (course_shape c) \<Longrightarrow>
     (ty = ''lecture'' \<and> d = 2) \<or> (ty = ''lab'' \<and> d = 3)"
  by (auto simp: course_shape_def block_shape_def)

text \<open>
  Claim C3, as the code has it. In a run that returns a schedule, for a course that is the
  only one with its code, program and year, with unit counts that are not negative, and for
  each of its blocks, the schedule holds as many Lecture events as the course has lecture
  units, and twice as many Laboratory events as it has lab units (the builder asks for
  \<^verbatim>\<open>lab_u * 2\<close> lab meetings); every Lecture event lasts 2 slots and every Laboratory
  event 3.
\<close>

theorem meeting_count_spec:
  assumes "run_events solver env pid = Done evs" and "load_courses env = Inr courses"
    and "distinct (map course_key courses)" and "c \<in> set courses"
    and "0 \<le> b" and "b < blocks c" and "0 \<le> unitsLecture c" and "0 \<le> unitsLab c"
  shows "int (meeting_count evs c b ''Lecture'') = unitsLecture c \<and>
     int (meeting_count evs c b ''Laboratory'') = 2 * unitsLab c \<and>
     (\<forall>e \<in> set evs. (session e = ''Lecture'' \<longrightarrow> duration e = 2) \<and>
                     (session e = ''Laboratory'' \<longrightarrow> duration e = 3))"
proof -
  note S = run_events_summary[OF assms(1)]
  note ms = S(4)[OF assms(2)]
  have cnt: "length (filter (shape_of c b lec) (map ev_shape evs)) =
      (if lec then nat (unitsLecture c) else nat (unitsLab c * 2))" for lec
    using length_filter_mset[OF ms] courses_count[OF assms(3,4,5,6)] by simp
  have lec: "int (meeting_count evs c b ''Lecture'') = unitsLecture c"
    using meeting_count_shape(1)[OF S(3)] cnt[of True] assms(7) by simp
  have lab: "int (meeting_count evs c b ''Laboratory'') = 2 * unitsLab c"
    using meeting_count_shape(2)[OF S(3)] cnt[of False] assms(8) by simp
  have dur: "(session e = ''Lecture'' \<longrightarrow> duration e = 2) \<and> (session e = ''Laboratory'' \<longrightarrow> duration e = 3)"
    if e: "e \<in> set evs" for e
  proof -
    from e have "ev_shape e \<in># mset (map ev_shape evs)" by simp
    then have "ev_shape e \<in> set (concat (map course_shape courses))" unfolding ms by simp
    then obtain c' where "ev_shape e \<in> set (course_shape c')" by auto
    then have "(room_type e = ''lecture'' \<and> duration e = 2) \<or> (room_type e = ''lab'' \<and> duration e = 3)"
      unfolding ev_shape_def by (rule course_shape_durations)
    with S(3) e show ?thesis by auto
  qed
  from lec lab dur show ?thesis by blast
qed


lemma run_cs150: "run_events (checked values_cs150) env_cs150 None = Done evs_cs150"
  by code_simp

theorem meeting_count_witness:
  "run_events (checked values_cs150) env_cs150 None = Done evs_cs150 \<and>
   int (meeting_count evs_cs150 c_cs150 0 ''Lecture'') = unitsLecture c_cs150 \<and>
   int (meeting_count evs_cs150 c_cs150 0 ''Laboratory'') = 2 * unitsLab c_cs150"
proof -
  have "load_courses env_cs150 = Inr [c_cs150]" by (simp add: env_cs150_def)
  moreover have "distinct (map course_key [c_cs150])" by simp
  moreover have "c_cs150 \<in> set [c_cs150]" by simp
  moreover have "(0::int) \<le> 0" by simp
  moreover have "0 < blocks c_cs150" "0 \<le> unitsLecture c_cs150" "0 \<le> unitsLab c_cs150"
    by (simp_all add: c_cs150_def)
  ultimately have "int (meeting_count evs_cs150 c_cs150 0 ''Lecture'') = unitsLecture c_cs150 \<and>
     int (meeting_count evs_cs150 c_cs150 0 ''Laboratory'') = 2 * unitsLab c_cs150 \<and>
     (\<forall>e \<in> set evs_cs150. (session e = ''Lecture'' \<longrightarrow> duration e = 2) \<and>
                     (session e = ''Laboratory'' \<longrightarrow> duration e = 3))"
    by (rule meeting_count_spec[OF run_cs150])
  with run_cs150 show ?thesis by blast
qed

text \<open>One lab unit gives two Laboratory events, not one.\<close>

theorem meeting_count_counterexample:
  "run_events (checked values_cs150) env_cs150 None = Done evs_cs150 \<and>
   load_courses env_cs150 = Inr [c_cs150] \<and> unitsLab c_cs150 = 1 \<and>
   meeting_count evs_cs150 c_cs150 0 ''Laboratory'' = 2"
proof -
  have "load_courses env_cs150 = Inr [c_cs150]" by (simp add: env_cs150_def)
  moreover have "unitsLab c_cs150 = 1" by (simp add: c_cs150_def)
  moreover have "meeting_count evs_cs150 c_cs150 0 ''Laboratory'' = 2"
    by (simp add: meeting_count_def evs_cs150_def c_cs150_def)
  ultimately show ?thesis using run_cs150 by blast
qed

section \<open>Where the code breaks an invariant\<close>

text \<open>
  Claim C2 (section exclusivity across the whole run) fails on the code. The run below is a
  run of the code: the solver \<open>checked values_clash\<close> only answers with values that satisfy
  the model it is handed, and both phases are solved at the first attempt. Phase 1 puts the
  two lectures of section \<^verbatim>\<open>('BSCS', 1, 'A')\<close> at slots 1 and 5. For the lab course of the
  same section, in the later phase, the ledger leaves no free lab start, the builder falls
  back to the whole lab start set, and nothing in the model of that phase stands for the
  section's earlier lectures (only rooms get fixed intervals). The lab of Monday, slots 0 to
  2, overlaps the lecture of Monday, slots 1 and 2, in the same section.
\<close>

theorem section_overlap_across_phases:
  "run_events (checked values_clash) env_clash None = Done [ev_lab_mon, ev_lec_mon, ev_lab_tue, ev_lec_tue] \<and>
   (ev_program ev_lab_mon, year ev_lab_mon, block ev_lab_mon) =
     (ev_program ev_lec_mon, year ev_lec_mon, block ev_lec_mon) \<and>
   {start_slot ev_lab_mon..<start_slot ev_lab_mon + duration ev_lab_mon} \<inter>
   {start_slot ev_lec_mon..<start_slot ev_lec_mon + duration ev_lec_mon} = {1, 2}"
proof -
  have "run_events (checked values_clash) env_clash None = Done [ev_lab_mon, ev_lec_mon, ev_lab_tue, ev_lec_tue]"
    by code_simp
  moreover have "(ev_program ev_lab_mon, year ev_lab_mon, block ev_lab_mon) =
     (ev_program ev_lec_mon, year ev_lec_mon, block ev_lec_mon)"
    by (simp add: ev_lab_mon_def ev_lec_mon_def)
  moreover have "{start_slot ev_lab_mon..<start_slot ev_lab_mon + duration ev_lab_mon} \<inter>
   {start_slot ev_lec_mon..<start_slot ev_lec_mon + duration ev_lec_mon} = {1, 2}"
    by (auto simp: ev_lab_mon_def ev_lec_mon_def)
  ultimately show ?thesis by blast
qed

text \<open>
  Claim C4 (day confinement) fails on the code for lectures. The model ties only the start
  of a meeting to its day; the start domain of a lecture is \<open>0 .. total_inc - 2\<close>, which
  holds the last slot of every day but the last (the lab start set leaves such starts out).
  With days of 4 slots, the lecture below starts at slot 3 of Monday and ends in slot 4, the
  first slot of Tuesday: the quotients by \<open>inc_day\<close> are 0 and 1.
\<close>

theorem lecture_crosses_day_boundary:
  "run_events (checked values_cross) env_cross None = Done [ev_cross] \<and>
   inc_day (snd (load_data env_cross (init None))) = 4 \<and>
   start_slot ev_cross div 4 = 0 \<and>
   (start_slot ev_cross + duration ev_cross - 1) div 4 = 1"
proof -
  have "run_events (checked values_cross) env_cross None = Done [ev_cross]" by code_simp
  moreover have "inc_day (snd (load_data env_cross (init None))) = 4" by code_simp
  moreover have "start_slot ev_cross div 4 = 0" "(start_slot ev_cross + duration ev_cross - 1) div 4 = 1"
    by (simp_all add: ev_cross_def)
  ultimately show ?thesis by blast
qed

section \<open>Failure of a run\<close>



















end
